theory Spec2Isabelle
  imports Main "HOL-Library.Word" "HOL-Library.Sublist" "HOL-Library.AList"
begin

section \<open>The walk and reconcile engine of multus: \<open>backup\<close> and \<open>removeOld\<close>\<close>

text \<open>
  The development embeds the two functions of the backup engine, \<open>removeOld\<close> and
  \<open>backup\<close>, as state-passing functions over an explicit world:
  \<^item> the backup directory is an association list from file names to file contents;
  \<^item> every mutation of that directory is also appended to a list of events, so that
    properties of the order of the mutations can be stated;
  \<^item> every message the code logs (\<open>debugf\<close>, \<open>sysLog\<close>, standard error) is appended
    to a list of messages;
  \<^item> every system call whose outcome the code branches on is an input: the entries
    \<open>filepath.Walk\<close> reports, with the outcome of each call made for the entry, and a
    record of the outcomes of the calls made once per run.
  The signature cache, the snapshot writer, the metadata reader, the signature
  generator and the rsync delta generator are called by \<open>backup\<close> but are not
  part of the two functions; they are parameters or are modelled as the comments say.
  The three reusable buffers and their release to the operating system (the first
  lines of the walk callback) hold no value across two entries, the descriptor of the
  source file is only read, and neither is part of the state.
\<close>

subsection \<open>Data\<close>

type_synonym bytes = string

datatype error =
    ErrAbs | ErrLookupGroup | ErrMkdirAll | ErrChown | ErrNewSignatureCache
  | ErrReadDir | ErrNewSnapshot | ErrCancelled | ErrNewMetadata | ErrCacheGet
  | ErrGenSignature | ErrReadlink | ErrGenDelta | ErrSnapAdd | ErrCacheAdd
  | ErrCacheDuplicate | ErrCreateTemp | ErrSeek | ErrStat | ErrSnapClose
  | ErrCacheClose | ErrExistingClose | ErrRename | ErrNotExist | ErrLoad
  | ErrWalking string error

text \<open>
  Modelled from the spec: the fields of \<open>FileAttributes\<close> other than \<open>Mode\<close> (the
  declaration is not in the source; the source reads \<open>MD.Attribs.Mode\<close> and builds
  \<open>Metadata{Path: p, Attribs: FileAttributes{}}\<close>).
\<close>

record FileAttributes =
  Mode :: "32 word"
  UID :: "32 word"
  GID :: "32 word"
  Mtime :: "64 word"
  Size :: "64 word"

record Metadata =
  Path :: string
  Attribs :: FileAttributes

definition zeroAttribs :: FileAttributes where
  "zeroAttribs = \<lparr>Mode = 0, UID = 0, GID = 0, Mtime = 0, Size = 0\<rparr>"

text \<open>
  Modelled from the spec: the record kind. \<open>snap.Add\<close> takes no kind in the source; each
  record of the model carries the kind that the spec's table gives to the branch that
  emits it (0 metadata only, 1 full content, 2 delta, 3 tombstone).
\<close>

datatype rec_kind = KindMeta | KindFull | KindDelta | KindTombstone

fun kind_number :: "rec_kind \<Rightarrow> nat" where
  "kind_number KindMeta = 0"
| "kind_number KindFull = 1"
| "kind_number KindDelta = 2"
| "kind_number KindTombstone = 3"

record snap_record =
  rMD :: Metadata
  rKind :: rec_kind
  rPayload :: bytes

record gen_header =
  hdr_hostname :: string
  hdr_timeStamp :: int
  hdr_instance :: "16 word"
  hdr_version :: "16 word"

datatype fs_file =
    CacheFile gen_header "(string \<times> bytes) list"
  | SnapFile gen_header "snap_record list"
  | DataFile bytes

datatype event =
    EvCreate string | EvAppend string | EvClose string | EvRemove string
  | EvRename string string | EvChown string

datatype msg =
    InfoStarting | InfoCompleted
  | ErrLoadSignature | ErrFailedDelete string | ErrWalk | ErrChownSignature
  | StderrOpen
  | DebugDeleting string | DebugDeletingDryrun string | DebugRunningLevel "16 word" int
  | DebugExcluding string | DebugSkippingSocket string
  | DebugChanged string | DebugNewFile string | DebugNoChange string
  | DebugDeleted string

record state =
  files :: "(string \<times> fs_file) list"
  events :: "event list"
  msgs :: "msg list"
  pathsToCheck :: "string list"
  filesExcluded :: "32 word"

text \<open>
  The functions \<open>backup\<close> calls that are not in the source and that compute a value
  from their arguments: the signature generator (metadata, the data to read or nil,
  the size), the delta generator (the signature to read, the data, the size), and
  the six tests on the file mode. The data is the whole content: the code hands the
  same reader to \<open>GenSignature\<close> and then to \<open>GenDelta\<close> or \<open>snap.Add\<close> without
  a seek, so it reads from the start each time.
\<close>

record helpers =
  GenSignature :: "Metadata \<Rightarrow> bytes option \<Rightarrow> int \<Rightarrow> error + bytes"
  GenDelta :: "bytes \<Rightarrow> bytes \<Rightarrow> int \<Rightarrow> error + bytes"
  isSocket :: "32 word \<Rightarrow> bool"
  isCharDevice :: "32 word \<Rightarrow> bool"
  isDevice :: "32 word \<Rightarrow> bool"
  isNamedPipe :: "32 word \<Rightarrow> bool"
  isDir :: "32 word \<Rightarrow> bool"
  isSymlink :: "32 word \<Rightarrow> bool"

text \<open>
  One call of the walk callback: the arguments \<open>filepath.Walk\<close> passes and the
  outcome of every call the callback may make for the entry.
\<close>

record walk_entry =
  srcRelPath :: string
  info_Size :: int
  walk_err :: bool
  ctx_Err :: bool
  abs_result :: "error + string"
  lstat_result :: "error + FileAttributes"
  get_fails :: bool
  readlink_result :: "error + bytes"
  open_result :: "error + bytes"
  fd_stat_fails :: bool
  temp_result :: "error + string"
  seek_fails :: bool
  tmp_stat_fails :: bool
  snap_add_fails :: bool
  sc_add_fails :: bool

text \<open>The variables the callback captures and does not change.\<close>

record closure =
  destDirAbs :: string
  rExcludes :: "(string \<Rightarrow> bool) list"
  existingSC :: "(gen_header \<times> (string \<times> bytes) list) option"
  snapName :: string
  unremovable :: "string \<Rightarrow> bool"

record config =
  MaxIntervals :: "16 word"
  DryRun :: bool
  Excludes :: "(string \<Rightarrow> bool) list"
  Paths :: "(string \<times> walk_entry list) list"

text \<open>The outcome of the calls made once per run.\<close>

record run_env =
  abs_destDir :: "error + string"
  lookupGroup :: "error + int"
  mkdir_fails :: bool
  chown_fails :: bool
  load_fails :: bool
  now :: int
  os_hostname :: string
  new_cache_fails :: bool
  readdir_fails :: bool
  cannot_remove :: "string \<Rightarrow> bool"
  snap_stem :: "string \<Rightarrow> int \<Rightarrow> 16 word \<Rightarrow> string"
  new_snapshot_fails :: bool
  tombstone_fails :: "string \<Rightarrow> bool"
  snap_close_fails :: bool
  sc_close_fails :: bool
  existing_close_fails :: bool
  rename_fails :: bool
  sig_chown_fails :: bool

subsection \<open>Constants\<close>

definition memoryLimit :: int where
  "memoryLimit = 1024 * 1024 * 10"

definition FormatVersion :: "16 word" where
  "FormatVersion = 1"

definition sigFile :: string where
  "sigFile = ''sig.cache''"

definition inprogress :: string where
  "inprogress = ''sig.cache.inprogress''"

subsection \<open>Logging and the file system\<close>

definition say :: "msg \<Rightarrow> state \<Rightarrow> state" where
  "say m st = st\<lparr>msgs := msgs st @ [m]\<rparr>"

definition emit :: "event \<Rightarrow> state \<Rightarrow> state" where
  "emit ev st = st\<lparr>events := events st @ [ev]\<rparr>"

definition put_file :: "string \<Rightarrow> fs_file \<Rightarrow> state \<Rightarrow> state" where
  "put_file name f st = st\<lparr>files := AList.update name f (files st)\<rparr>"

definition file_names :: "state \<Rightarrow> string list" where
  "file_names st = map fst (files st)"

text \<open>\<open>os.Remove\<close>: the result is whether the file was removed.\<close>

definition os_Remove :: "(string \<Rightarrow> bool) \<Rightarrow> string \<Rightarrow> state \<Rightarrow> state \<times> bool" where
  "os_Remove unr name st =
     (if unr name \<or> map_of (files st) name = None then (st, False)
      else (emit (EvRemove name) (st\<lparr>files := AList.delete name (files st)\<rparr>), True))"

text \<open>Sequencing of two steps that may fail: the second runs only if the first succeeds.\<close>

definition and_then ::
  "state \<times> error option \<Rightarrow> (state \<Rightarrow> state \<times> error option) \<Rightarrow> state \<times> error option" where
  "and_then r f = (case r of (st, None) \<Rightarrow> f st | (st, Some er) \<Rightarrow> (st, Some er))"

subsection \<open>The signature cache and the snapshot writer\<close>

text \<open>
  Modelled from the spec: \<open>LoadSignatureCache\<close>, \<open>NewSignatureCache\<close>, \<open>Get\<close>,
  \<open>Add\<close>, \<open>Paths\<close> and \<open>Close\<close> of the signature cache (section 4.2; the
  functions are not in the source). A missing file is a distinct outcome of the load;
  \<open>Get\<close> leaves the buffer empty when there is no entry or no cache; \<open>Add\<close> appends
  one record to the file and a second \<open>Add\<close> of a path is an error; \<open>Paths\<close> is the
  set of the paths of the loaded cache.
\<close>

definition LoadSignatureCache ::
  "bool \<Rightarrow> string \<Rightarrow> state \<Rightarrow> error + (gen_header \<times> (string \<times> bytes) list)" where
  "LoadSignatureCache fails name st =
     (case map_of (files st) name of
        None \<Rightarrow> Inl ErrNotExist
      | Some (CacheFile h es) \<Rightarrow> if fails then Inl ErrLoad else Inr (h, es)
      | Some _ \<Rightarrow> Inl ErrLoad)"

definition NewSignatureCache ::
  "bool \<Rightarrow> string \<Rightarrow> string \<Rightarrow> int \<Rightarrow> 16 word \<Rightarrow> state \<Rightarrow> state \<times> error option" where
  "NewSignatureCache fails host name ts n st =
     (if fails then (st, Some ErrNewSignatureCache)
      else (emit (EvCreate name)
              (put_file name
                 (CacheFile \<lparr>hdr_hostname = host, hdr_timeStamp = ts, hdr_instance = n,
                             hdr_version = FormatVersion\<rparr> []) st), None))"

definition sc_Get ::
  "(gen_header \<times> (string \<times> bytes) list) option \<Rightarrow> bool \<Rightarrow> string \<Rightarrow> error + bytes" where
  "sc_Get ex fails p =
     (if fails then Inl ErrCacheGet
      else case ex of
        None \<Rightarrow> Inr []
      | Some (h, es) \<Rightarrow> (case map_of es p of None \<Rightarrow> Inr [] | Some s \<Rightarrow> Inr s))"

definition sc_Paths :: "(gen_header \<times> (string \<times> bytes) list) option \<Rightarrow> string list" where
  "sc_Paths ex = (case ex of None \<Rightarrow> [] | Some (h, es) \<Rightarrow> remdups (map fst es))"

definition sc_entries :: "state \<Rightarrow> (string \<times> bytes) list" where
  "sc_entries st = (case map_of (files st) inprogress of Some (CacheFile h es) \<Rightarrow> es | _ \<Rightarrow> [])"

definition sc_Add :: "bool \<Rightarrow> string \<Rightarrow> bytes \<Rightarrow> state \<Rightarrow> state \<times> error option" where
  "sc_Add fails p sig st =
     (case map_of (files st) inprogress of
        Some (CacheFile h es) \<Rightarrow>
          if fails then (st, Some ErrCacheAdd)
          else if p \<in> set (map fst es) then (st, Some ErrCacheDuplicate)
          else (emit (EvAppend inprogress)
                  (put_file inprogress (CacheFile h (es @ [(p, sig)])) st), None)
      | _ \<Rightarrow> (st, Some ErrCacheAdd))"

text \<open>
  Modelled from the spec: \<open>NewSnapshot\<close>, \<open>Add\<close> and \<open>Close\<close> of the snapshot
  writer (section 4.3; the functions are not in the source). The file is named
  after the host name, the base time stamp and the increment and ends in
  \<open>.gz.enc\<close>; the writer is append-only and never cleans up on its own.
\<close>

definition snapshot_name :: "(string \<Rightarrow> int \<Rightarrow> 16 word \<Rightarrow> string) \<Rightarrow> gen_header \<Rightarrow> string" where
  "snapshot_name stem h =
     stem (hdr_hostname h) (hdr_timeStamp h) (hdr_instance h) @ ''.gz.enc''"

definition NewSnapshot :: "bool \<Rightarrow> string \<Rightarrow> gen_header \<Rightarrow> state \<Rightarrow> state \<times> error option" where
  "NewSnapshot fails name h st =
     (if fails then (st, Some ErrNewSnapshot)
      else (emit (EvCreate name) (put_file name (SnapFile h []) st), None))"

definition snap_records :: "string \<Rightarrow> state \<Rightarrow> snap_record list" where
  "snap_records name st =
     (case map_of (files st) name of Some (SnapFile h rs) \<Rightarrow> rs | _ \<Rightarrow> [])"

definition snap_Add :: "string \<Rightarrow> bool \<Rightarrow> snap_record \<Rightarrow> state \<Rightarrow> state \<times> error option" where
  "snap_Add name fails r st =
     (case map_of (files st) name of
        Some (SnapFile h rs) \<Rightarrow>
          if fails then (st, Some ErrSnapAdd)
          else (emit (EvAppend name) (put_file name (SnapFile h (rs @ [r])) st), None)
      | _ \<Rightarrow> (st, Some ErrSnapAdd))"

definition snap_Close :: "string \<Rightarrow> bool \<Rightarrow> state \<Rightarrow> state \<times> error option" where
  "snap_Close name fails st =
     (if fails then (st, Some ErrSnapClose) else (emit (EvClose name) st, None))"

definition sc_Close :: "bool \<Rightarrow> state \<Rightarrow> state \<times> error option" where
  "sc_Close fails st =
     (if fails then (st, Some ErrCacheClose) else (emit (EvClose inprogress) st, None))"

text \<open>
  Modelled from the spec: \<open>NewMetadata\<close> (not in the source) reads the attributes of
  the path and returns them with the path.
\<close>

definition NewMetadata :: "string \<Rightarrow> error + FileAttributes \<Rightarrow> error + Metadata" where
  "NewMetadata p r = (case r of Inl er \<Rightarrow> Inl er | Inr a \<Rightarrow> Inr \<lparr>Path = p, Attribs = a\<rparr>)"

subsection \<open>removeOld\<close>

fun removeOld_loop :: "(string \<Rightarrow> bool) \<Rightarrow> bool \<Rightarrow> string list \<Rightarrow> state \<Rightarrow> state" where
  "removeOld_loop unr dryRun [] st = st"
| "removeOld_loop unr dryRun (name # names) st =
     (if \<not> suffix ''.gz.enc'' name then removeOld_loop unr dryRun names st
      else if dryRun then
        removeOld_loop unr dryRun names (say (DebugDeletingDryrun name) st)
      else
        (case os_Remove unr name (say (DebugDeleting name) st) of
           (st', False) \<Rightarrow> removeOld_loop unr dryRun names (say (ErrFailedDelete name) st')
         | (st', True) \<Rightarrow> removeOld_loop unr dryRun names st'))"

text \<open>A failure of \<open>ioutil.ReadDir\<close> is a panic, here the error \<open>ErrReadDir\<close>.\<close>

definition removeOld :: "bool \<Rightarrow> (string \<Rightarrow> bool) \<Rightarrow> bool \<Rightarrow> state \<Rightarrow> state \<times> error option" where
  "removeOld rd_fails unr dryRun st =
     (if rd_fails then (st, Some ErrReadDir)
      else (removeOld_loop unr dryRun (file_names st) st, None))"

subsection \<open>The walk callback\<close>

definition delete_path :: "string \<Rightarrow> state \<Rightarrow> state" where
  "delete_path p st = st\<lparr>pathsToCheck := removeAll p (pathsToCheck st)\<rparr>"

text \<open>
  The common end of the branches that emit a record: \<open>snap.Add\<close>, then \<open>sc.Add\<close>
  with the new signature, then the path leaves the deletion set.
\<close>

definition record_and_cache ::
  "closure \<Rightarrow> walk_entry \<Rightarrow> Metadata \<Rightarrow> string \<Rightarrow> bytes \<Rightarrow> rec_kind \<Rightarrow> bytes \<Rightarrow> state
     \<Rightarrow> state \<times> error option" where
  "record_and_cache K e MD srcPath thisSig k payload st =
     and_then (snap_Add (snapName K) (snap_add_fails e)
                 \<lparr>rMD = MD, rKind = k, rPayload = payload\<rparr> st)
       (\<lambda>st1. and_then (sc_Add (sc_add_fails e) srcPath thisSig st1)
          (\<lambda>st2. (delete_path srcPath st2, None)))"

text \<open>The end of the branches that find the signature unchanged.\<close>

definition cache_only ::
  "walk_entry \<Rightarrow> string \<Rightarrow> bytes \<Rightarrow> state \<Rightarrow> state \<times> error option" where
  "cache_only e srcPath currentSig st =
     and_then (sc_Add (sc_add_fails e) srcPath currentSig (say (DebugNoChange srcPath) st))
       (\<lambda>st1. (delete_path srcPath st1, None))"

text \<open>Character devices, devices, named pipes and directories (source lines 187 to 220).\<close>

definition specialFile ::
  "helpers \<Rightarrow> closure \<Rightarrow> walk_entry \<Rightarrow> Metadata \<Rightarrow> string \<Rightarrow> bytes \<Rightarrow> state
     \<Rightarrow> state \<times> error option" where
  "specialFile H K e MD srcPath currentSig st =
     (case GenSignature H MD None 0 of
        Inl er \<Rightarrow> (st, Some er)
      | Inr thisSig \<Rightarrow>
          if currentSig \<noteq> thisSig then
            record_and_cache K e MD srcPath thisSig KindMeta []
              (say (if currentSig \<noteq> [] then DebugChanged srcPath else DebugNewFile srcPath) st)
          else cache_only e srcPath currentSig st)"

text \<open>Symbolic links (source lines 221 to 261).\<close>

definition symlinkFile ::
  "helpers \<Rightarrow> closure \<Rightarrow> walk_entry \<Rightarrow> Metadata \<Rightarrow> string \<Rightarrow> bytes \<Rightarrow> state
     \<Rightarrow> state \<times> error option" where
  "symlinkFile H K e MD srcPath currentSig st =
     (case readlink_result e of
        Inl er \<Rightarrow> (st, Some er)
      | Inr dest \<Rightarrow>
          (case GenSignature H MD (Some dest) (int (length dest)) of
             Inl er \<Rightarrow> (st, Some er)
           | Inr thisSig \<Rightarrow>
               if currentSig \<noteq> thisSig then
                 (if currentSig \<noteq> [] then
                    (case GenDelta H currentSig dest (int (length dest)) of
                       Inl er \<Rightarrow> (say (DebugChanged srcPath) st, Some er)
                     | Inr delta \<Rightarrow>
                         record_and_cache K e MD srcPath thisSig KindDelta delta
                           (say (DebugChanged srcPath) st))
                  else
                    record_and_cache K e MD srcPath thisSig KindFull dest
                      (say (DebugNewFile srcPath) st))
               else cache_only e srcPath currentSig st))"

text \<open>
  The temporary file of a large delta (source lines 279 to 312). \<open>os.CreateTemp\<close>
  gives a name that begins with \<open>delta\<close> and that no file of the directory has;
  the file is closed and \<open>os.Remove\<close> is called on it on every way out.
\<close>

definition close_and_remove :: "closure \<Rightarrow> string \<Rightarrow> state \<Rightarrow> state" where
  "close_and_remove K tmp st = fst (os_Remove (unremovable K) tmp (emit (EvClose tmp) st))"

definition read_data :: "string \<Rightarrow> state \<Rightarrow> bytes" where
  "read_data name st = (case map_of (files st) name of Some (DataFile d) \<Rightarrow> d | _ \<Rightarrow> [])"

definition largeDelta ::
  "helpers \<Rightarrow> closure \<Rightarrow> walk_entry \<Rightarrow> Metadata \<Rightarrow> bytes \<Rightarrow> bytes \<Rightarrow> state
     \<Rightarrow> state \<times> error option" where
  "largeDelta H K e MD currentSig content st =
     (case temp_result e of
        Inl er \<Rightarrow> (st, Some er)
      | Inr rnd \<Rightarrow>
          let tmp = ''delta'' @ rnd in
          if tmp \<in> set (file_names st) then (st, Some ErrCreateTemp)
          else
            let st1 = emit (EvCreate tmp) (put_file tmp (DataFile []) st) in
            (case GenDelta H currentSig content (info_Size e) of
               Inl er \<Rightarrow> (close_and_remove K tmp st1, Some er)
             | Inr delta \<Rightarrow>
                 let st2 = emit (EvAppend tmp) (put_file tmp (DataFile delta) st1) in
                 if seek_fails e then (close_and_remove K tmp st2, Some ErrSeek)
                 else if tmp_stat_fails e then (close_and_remove K tmp st2, Some ErrStat)
                 else
                   (case snap_Add (snapName K) (snap_add_fails e)
                           \<lparr>rMD = MD, rKind = KindDelta, rPayload = read_data tmp st2\<rparr> st2 of
                      (st3, Some er) \<Rightarrow> (close_and_remove K tmp st3, Some er)
                    | (st3, None) \<Rightarrow> (close_and_remove K tmp st3, None))))"

text \<open>The delta kept in memory (source lines 314 to 324).\<close>

definition smallDelta ::
  "helpers \<Rightarrow> closure \<Rightarrow> walk_entry \<Rightarrow> Metadata \<Rightarrow> bytes \<Rightarrow> bytes \<Rightarrow> state
     \<Rightarrow> state \<times> error option" where
  "smallDelta H K e MD currentSig content st =
     (case GenDelta H currentSig content (info_Size e) of
        Inl er \<Rightarrow> (st, Some er)
      | Inr delta \<Rightarrow>
          snap_Add (snapName K) (snap_add_fails e)
            \<lparr>rMD = MD, rKind = KindDelta, rPayload = delta\<rparr> st)"

text \<open>Every other file mode: the regular file (source lines 262 to 358).\<close>

definition regularFile ::
  "helpers \<Rightarrow> closure \<Rightarrow> walk_entry \<Rightarrow> Metadata \<Rightarrow> string \<Rightarrow> bytes \<Rightarrow> state
     \<Rightarrow> state \<times> error option" where
  "regularFile H K e MD srcPath currentSig st =
     (case open_result e of
        Inl er \<Rightarrow> (say StderrOpen st, None)
      | Inr content \<Rightarrow>
          (case GenSignature H MD (Some content) (info_Size e) of
             Inl er \<Rightarrow> (st, Some er)
           | Inr thisSig \<Rightarrow>
               if currentSig \<noteq> thisSig then
                 and_then
                   (if currentSig \<noteq> [] then
                      (if info_Size e > memoryLimit * 10
                       then largeDelta H K e MD currentSig content (say (DebugChanged srcPath) st)
                       else smallDelta H K e MD currentSig content (say (DebugChanged srcPath) st))
                    else
                      (if fd_stat_fails e then (say (DebugNewFile srcPath) st, Some ErrStat)
                       else snap_Add (snapName K) (snap_add_fails e)
                              \<lparr>rMD = MD, rKind = KindFull, rPayload = content\<rparr>
                              (say (DebugNewFile srcPath) st)))
                   (\<lambda>st1. and_then (sc_Add (sc_add_fails e) srcPath thisSig st1)
                      (\<lambda>st2. (delete_path srcPath st2, None)))
               else cache_only e srcPath currentSig st))"

text \<open>The callback given to \<open>filepath.Walk\<close> (source lines 130 to 360).\<close>

definition walkFn :: "helpers \<Rightarrow> closure \<Rightarrow> walk_entry \<Rightarrow> state \<Rightarrow> state \<times> error option" where
  "walkFn H K e st =
     (if walk_err e then (say ErrWalk st, None)
      else if ctx_Err e then (st, Some ErrCancelled)
      else
        (case abs_result e of
           Inl er \<Rightarrow> (st, Some er)
         | Inr srcPath \<Rightarrow>
             if prefix (destDirAbs K) srcPath then (st, None)
             else if list_ex (\<lambda>exclude. exclude srcPath) (rExcludes K) then
               (say (DebugExcluding srcPath) (st\<lparr>filesExcluded := filesExcluded st + 1\<rparr>), None)
             else
               (case NewMetadata srcPath (lstat_result e) of
                  Inl er \<Rightarrow> (st, Some er)
                | Inr MD \<Rightarrow>
                    (case sc_Get (existingSC K) (get_fails e) srcPath of
                       Inl er \<Rightarrow> (st, Some er)
                     | Inr currentSig \<Rightarrow>
                         let fileMode = Mode (Attribs MD) in
                         if isSocket H fileMode then (say (DebugSkippingSocket srcPath) st, None)
                         else if isCharDevice H fileMode \<or> isDevice H fileMode
                                 \<or> isNamedPipe H fileMode \<or> isDir H fileMode
                         then specialFile H K e MD srcPath currentSig st
                         else if isSymlink H fileMode
                         then symlinkFile H K e MD srcPath currentSig st
                         else regularFile H K e MD srcPath currentSig st))))"

text \<open>
  \<open>filepath.Walk\<close> over one root: the callback runs on the entries in order and the
  first error it returns ends the walk.
\<close>

fun walk :: "helpers \<Rightarrow> closure \<Rightarrow> walk_entry list \<Rightarrow> state \<Rightarrow> state \<times> error option" where
  "walk H K [] st = (st, None)"
| "walk H K (e # es) st =
     (case walkFn H K e st of
        (st', None) \<Rightarrow> walk H K es st'
      | (st', Some er) \<Rightarrow> (st', Some er))"

text \<open>The loop over the configured roots (source lines 129 to 366).\<close>

fun walkRoots ::
  "helpers \<Rightarrow> closure \<Rightarrow> bool \<Rightarrow> (string \<times> walk_entry list) list \<Rightarrow> state
     \<Rightarrow> state \<times> error option" where
  "walkRoots H K close_fails [] st = (st, None)"
| "walkRoots H K close_fails ((sourceDir, es) # roots) st =
     (case walk H K es st of
        (st', None) \<Rightarrow> walkRoots H K close_fails roots st'
      | (st', Some er) \<Rightarrow>
          (fst (os_Remove (unremovable K) (snapName K)
                  (fst (snap_Close (snapName K) close_fails st'))),
           Some (ErrWalking sourceDir er)))"

text \<open>
  The loop over the paths left in the deletion set (source lines 368 to 377). Go
  leaves the order of a map's keys open; the model takes the order of the list.
\<close>

fun tombstones ::
  "closure \<Rightarrow> bool \<Rightarrow> (string \<Rightarrow> bool) \<Rightarrow> string list \<Rightarrow> state \<Rightarrow> state \<times> error option" where
  "tombstones K close_fails fails [] st = (st, None)"
| "tombstones K close_fails fails (deletedFilePath # ps) st =
     (case snap_Add (snapName K) (fails deletedFilePath)
             \<lparr>rMD = \<lparr>Path = deletedFilePath, Attribs = zeroAttribs\<rparr>,
              rKind = KindTombstone, rPayload = []\<rparr>
             (say (DebugDeleted deletedFilePath) st) of
        (st', None) \<Rightarrow> tombstones K close_fails fails ps st'
      | (st', Some er) \<Rightarrow>
          (fst (os_Remove (unremovable K) (snapName K)
                  (fst (snap_Close (snapName K) close_fails st'))),
           Some er))"

subsection \<open>backup\<close>

text \<open>\<open>os.Rename\<close> moves the content of the first name to the second in one step.\<close>

definition os_Rename :: "bool \<Rightarrow> string \<Rightarrow> string \<Rightarrow> state \<Rightarrow> state \<times> error option" where
  "os_Rename fails a b st =
     (if fails then (st, Some ErrRename)
      else case map_of (files st) a of
        None \<Rightarrow> (st, Some ErrRename)
      | Some f \<Rightarrow>
          (emit (EvRename a b) (st\<lparr>files := AList.update b f (AList.delete a (files st))\<rparr>),
           None))"

text \<open>Source lines 89 to 94: a cache that cannot be loaded is no cache.\<close>

definition loadExisting ::
  "bool \<Rightarrow> state \<Rightarrow> (gen_header \<times> (string \<times> bytes) list) option \<times> state" where
  "loadExisting fails st =
     (case LoadSignatureCache fails sigFile st of
        Inr c \<Rightarrow> (Some c, st)
      | Inl er \<Rightarrow> if er = ErrNotExist then (None, st) else (None, say ErrLoadSignature st))"

text \<open>The test of source line 97, on 16-bit unsigned increments.\<close>

definition fresh_generation ::
  "config \<Rightarrow> (gen_header \<times> (string \<times> bytes) list) option \<Rightarrow> bool" where
  "fresh_generation cfg ex =
     (case ex of None \<Rightarrow> True | Some (h, es) \<Rightarrow> hdr_instance h + 1 > MaxIntervals cfg)"

definition new_header ::
  "config \<Rightarrow> run_env \<Rightarrow> (gen_header \<times> (string \<times> bytes) list) option \<Rightarrow> gen_header" where
  "new_header cfg env ex =
     (case (if fresh_generation cfg ex then None else ex) of
        None \<Rightarrow> \<lparr>hdr_hostname = os_hostname env, hdr_timeStamp = now env, hdr_instance = 0,
                  hdr_version = FormatVersion\<rparr>
      | Some (h, es) \<Rightarrow> \<lparr>hdr_hostname = os_hostname env, hdr_timeStamp = hdr_timeStamp h,
                          hdr_instance = hdr_instance h + 1, hdr_version = FormatVersion\<rparr>)"

text \<open>Source lines 379 to 400.\<close>

definition finalize :: "closure \<Rightarrow> run_env \<Rightarrow> state \<Rightarrow> state \<times> error option" where
  "finalize K env st =
     (case snap_Close (snapName K) (snap_close_fails env) st of
        (st1, Some er) \<Rightarrow> (fst (os_Remove (unremovable K) (snapName K) st1), Some er)
      | (st1, None) \<Rightarrow>
          and_then (sc_Close (sc_close_fails env) st1)
            (\<lambda>st2. if existing_close_fails env \<and> existingSC K \<noteq> None
                    then (st2, Some ErrExistingClose)
                    else and_then (os_Rename (rename_fails env) inprogress sigFile st2)
                      (\<lambda>st3. (say InfoCompleted
                                (if sig_chown_fails env then say ErrChownSignature st3
                                 else emit (EvChown sigFile) st3), None))))"

definition initial_state :: "(string \<times> fs_file) list \<Rightarrow> state" where
  "initial_state fs0 =
     \<lparr>files = fs0, events = [], msgs = [InfoStarting], pathsToCheck = [], filesExcluded = 0\<rparr>"

definition make_closure ::
  "config \<Rightarrow> run_env \<Rightarrow> string \<Rightarrow> (gen_header \<times> (string \<times> bytes) list) option \<Rightarrow> closure" where
  "make_closure cfg env dest ex =
     \<lparr>destDirAbs = dest, rExcludes = Excludes cfg,
      existingSC = (if fresh_generation cfg ex then None else ex),
      snapName = snapshot_name (snap_stem env) (new_header cfg env ex),
      unremovable = cannot_remove env\<rparr>"

text \<open>Source lines 107 to 400, from the new cache on.\<close>

definition run_generation ::
  "helpers \<Rightarrow> config \<Rightarrow> run_env \<Rightarrow> closure \<Rightarrow> gen_header \<Rightarrow> state \<Rightarrow> state \<times> error option" where
  "run_generation H cfg env K hdr st =
     and_then
       (if hdr_instance hdr = 0
        then removeOld (readdir_fails env) (cannot_remove env) (DryRun cfg)
               (st\<lparr>pathsToCheck := sc_Paths (existingSC K)\<rparr>)
        else (st\<lparr>pathsToCheck := sc_Paths (existingSC K)\<rparr>, None))
       (\<lambda>st1. and_then
          (NewSnapshot (new_snapshot_fails env) (snapName K) hdr
             (say (DebugRunningLevel (hdr_instance hdr) (hdr_timeStamp hdr)) st1))
          (\<lambda>st2. and_then (walkRoots H K (snap_close_fails env) (Paths cfg) st2)
             (\<lambda>st3. and_then
                (tombstones K (snap_close_fails env) (tombstone_fails env) (pathsToCheck st3) st3)
                (finalize K env))))"

definition backup ::
  "helpers \<Rightarrow> config \<Rightarrow> run_env \<Rightarrow> (string \<times> fs_file) list \<Rightarrow> state \<times> error option" where
  "backup H cfg env fs0 =
     (case abs_destDir env of
        Inl er \<Rightarrow> (initial_state fs0, Some er)
      | Inr dest \<Rightarrow>
          (case lookupGroup env of
             Inl er \<Rightarrow> (initial_state fs0, Some er)
           | Inr gid \<Rightarrow>
               if mkdir_fails env then (initial_state fs0, Some ErrMkdirAll)
               else if chown_fails env then (initial_state fs0, Some ErrChown)
               else
                 (case loadExisting (load_fails env) (initial_state fs0) of
                    (ex, st1) \<Rightarrow>
                      let hdr = new_header cfg env ex in
                      and_then
                        (NewSignatureCache (new_cache_fails env) (hdr_hostname hdr) inprogress
                           (hdr_timeStamp hdr) (hdr_instance hdr) st1)
                        (run_generation H cfg env (make_closure cfg env dest ex) hdr))))"

subsection \<open>Predicates of the specification\<close>

definition wf :: "closure \<Rightarrow> state \<Rightarrow> bool" where
  "wf K st \<longleftrightarrow>
     snapName K \<noteq> sigFile \<and> snapName K \<noteq> inprogress
     \<and> (\<exists>h rs. map_of (files st) (snapName K) = Some (SnapFile h rs))
     \<and> (\<exists>h es. map_of (files st) inprogress = Some (CacheFile h es))"

fun mutates :: "string \<Rightarrow> event \<Rightarrow> bool" where
  "mutates n (EvCreate m) = (m = n)"
| "mutates n (EvAppend m) = (m = n)"
| "mutates n (EvClose m) = False"
| "mutates n (EvRemove m) = (m = n)"
| "mutates n (EvRename a b) = (a = n \<or> b = n)"
| "mutates n (EvChown m) = (m = n)"

definition frame :: "closure \<Rightarrow> string set \<Rightarrow> state \<Rightarrow> state \<Rightarrow> bool" where
  "frame K X st st' \<longleftrightarrow>
     wf K st'
     \<and> map_of (files st') sigFile = map_of (files st) sigFile
     \<and> (\<exists>evs. events st' = events st @ evs \<and> (\<forall>ev \<in> set evs. \<not> mutates sigFile ev))
     \<and> ((\<forall>rnd. \<not> unremovable K (''delta'' @ rnd))
          \<longrightarrow> dom (map_of (files st')) \<subseteq> dom (map_of (files st)) \<union> X)"

definition ok_path :: "closure \<Rightarrow> string \<Rightarrow> bool" where
  "ok_path K p \<longleftrightarrow> \<not> prefix (destDirAbs K) p \<and> \<not> list_ex (\<lambda>x. x p) (rExcludes K)"

definition cached :: "closure \<Rightarrow> string \<Rightarrow> bytes" where
  "cached K p = (case sc_Get (existingSC K) False p of Inr s \<Rightarrow> s | Inl er \<Rightarrow> [])"

definition rec_paths :: "string \<Rightarrow> state \<Rightarrow> string set" where
  "rec_paths name st =
     {Path (rMD r) | r. r \<in> set (snap_records name st) \<and> rKind r \<noteq> KindTombstone}"

definition unchanged :: "state \<Rightarrow> string set" where
  "unchanged st = {p. DebugNoChange p \<in> set (msgs st)}"

definition inv :: "closure \<Rightarrow> string set \<Rightarrow> state \<Rightarrow> bool" where
  "inv K P0 st \<longleftrightarrow>
     fst ` set (sc_entries st) = rec_paths (snapName K) st \<union> unchanged st
     \<and> rec_paths (snapName K) st \<inter> unchanged st = {}
     \<and> distinct (map fst (sc_entries st))
     \<and> set (pathsToCheck st) = P0 - fst ` set (sc_entries st)
     \<and> (\<forall>p \<in> fst ` set (sc_entries st). ok_path K p)
     \<and> (\<forall>r \<in> set (snap_records (snapName K) st). rKind r \<noteq> KindTombstone)
     \<and> (\<forall>p \<in> unchanged st. map_of (sc_entries st) p = Some (cached K p))"

definition snap_added :: "closure \<Rightarrow> snap_record \<Rightarrow> state \<Rightarrow> state \<Rightarrow> bool" where
  "snap_added K r st st' \<longleftrightarrow>
     snap_records (snapName K) st' = snap_records (snapName K) st @ [r]
     \<and> sc_entries st' = sc_entries st
     \<and> pathsToCheck st' = pathsToCheck st
     \<and> unchanged st' = unchanged st"

definition cache_added :: "closure \<Rightarrow> string \<Rightarrow> bytes \<Rightarrow> state \<Rightarrow> state \<Rightarrow> bool" where
  "cache_added K p sg st st' \<longleftrightarrow>
     snap_records (snapName K) st' = snap_records (snapName K) st
     \<and> sc_entries st' = sc_entries st @ [(p, sg)]
     \<and> p \<notin> fst ` set (sc_entries st)
     \<and> pathsToCheck st' = removeAll p (pathsToCheck st)
     \<and> unchanged st' = unchanged st"

definition no_effect :: "closure \<Rightarrow> state \<Rightarrow> state \<Rightarrow> bool" where
  "no_effect K st st' \<longleftrightarrow>
     snap_records (snapName K) st' = snap_records (snapName K) st
     \<and> sc_entries st' = sc_entries st
     \<and> pathsToCheck st' = pathsToCheck st
     \<and> unchanged st' = unchanged st"

definition rec_step :: "closure \<Rightarrow> string \<Rightarrow> bytes \<Rightarrow> snap_record \<Rightarrow> state \<Rightarrow> state \<Rightarrow> bool" where
  "rec_step K p sg r st st' \<longleftrightarrow>
     snap_records (snapName K) st' = snap_records (snapName K) st @ [r]
     \<and> sc_entries st' = sc_entries st @ [(p, sg)]
     \<and> p \<notin> fst ` set (sc_entries st)
     \<and> pathsToCheck st' = removeAll p (pathsToCheck st)
     \<and> unchanged st' = unchanged st"

definition same_step :: "closure \<Rightarrow> string \<Rightarrow> bytes \<Rightarrow> state \<Rightarrow> state \<Rightarrow> bool" where
  "same_step K p sg st st' \<longleftrightarrow>
     snap_records (snapName K) st' = snap_records (snapName K) st
     \<and> sc_entries st' = sc_entries st @ [(p, sg)]
     \<and> p \<notin> fst ` set (sc_entries st)
     \<and> pathsToCheck st' = removeAll p (pathsToCheck st)
     \<and> unchanged st' = insert p (unchanged st)"

definition entry_step :: "closure \<Rightarrow> walk_entry \<Rightarrow> state \<Rightarrow> state \<Rightarrow> bool" where
  "entry_step K e st st' \<longleftrightarrow>
     no_effect K st st'
     \<or> (\<exists>p a. abs_result e = Inr p \<and> ok_path K p \<and> lstat_result e = Inr a
           \<and> ((\<exists>sg r. rec_step K p sg r st st' \<and> rMD r = \<lparr>Path = p, Attribs = a\<rparr>
                  \<and> rKind r \<noteq> KindTombstone)
               \<or> same_step K p (cached K p) st st'))"

definition quiet :: "closure \<Rightarrow> string set \<Rightarrow> state \<Rightarrow> state \<Rightarrow> bool" where
  "quiet K X st st' \<longleftrightarrow>
     map_of (files st') sigFile = map_of (files st) sigFile
     \<and> (\<exists>evs. events st' = events st @ evs \<and> (\<forall>ev \<in> set evs. \<not> mutates sigFile ev))
     \<and> ((\<forall>rnd. \<not> unremovable K (''delta'' @ rnd))
          \<longrightarrow> dom (map_of (files st')) \<subseteq> dom (map_of (files st)) \<union> X)"

definition loaded ::
  "run_env \<Rightarrow> (string \<times> fs_file) list \<Rightarrow> (gen_header \<times> (string \<times> bytes) list) option" where
  "loaded env fs0 = fst (loadExisting (load_fails env) (initial_state fs0))"

definition run_header :: "config \<Rightarrow> run_env \<Rightarrow> (string \<times> fs_file) list \<Rightarrow> gen_header" where
  "run_header cfg env fs0 = new_header cfg env (loaded env fs0)"

definition run_closure :: "config \<Rightarrow> run_env \<Rightarrow> (string \<times> fs_file) list \<Rightarrow> closure" where
  "run_closure cfg env fs0 =
     make_closure cfg env (case abs_destDir env of Inr d \<Rightarrow> d | Inl er \<Rightarrow> []) (loaded env fs0)"

definition started :: "config \<Rightarrow> run_env \<Rightarrow> (string \<times> fs_file) list \<Rightarrow> state" where
  "started cfg env fs0 =
     (emit (EvCreate inprogress)
        (put_file inprogress (CacheFile (run_header cfg env fs0) [])
           (snd (loadExisting (load_fails env) (initial_state fs0)))))
     \<lparr>pathsToCheck := sc_Paths (existingSC (run_closure cfg env fs0))\<rparr>"

definition cleaned :: "config \<Rightarrow> run_env \<Rightarrow> (string \<times> fs_file) list \<Rightarrow> state" where
  "cleaned cfg env fs0 =
     (if hdr_instance (run_header cfg env fs0) = 0
      then removeOld_loop (cannot_remove env) (DryRun cfg) (file_names (started cfg env fs0))
             (started cfg env fs0)
      else started cfg env fs0)"

definition opened :: "config \<Rightarrow> run_env \<Rightarrow> (string \<times> fs_file) list \<Rightarrow> state" where
  "opened cfg env fs0 =
     emit (EvCreate (snapName (run_closure cfg env fs0)))
       (put_file (snapName (run_closure cfg env fs0)) (SnapFile (run_header cfg env fs0) [])
          (say (DebugRunningLevel (hdr_instance (run_header cfg env fs0))
                                  (hdr_timeStamp (run_header cfg env fs0)))
             (cleaned cfg env fs0)))"

definition tombstone :: "string \<Rightarrow> snap_record" where
  "tombstone p = \<lparr>rMD = \<lparr>Path = p, Attribs = zeroAttribs\<rparr>, rKind = KindTombstone, rPayload = []\<rparr>"

definition removal :: "(string \<Rightarrow> bool) \<Rightarrow> bool \<Rightarrow> string list \<Rightarrow> state \<Rightarrow> state \<Rightarrow> bool" where
  "removal unr dryRun names st st' \<longleftrightarrow>
     (\<exists>evs. events st' = events st @ evs
            \<and> (\<forall>ev \<in> set evs. \<exists>n. ev = EvRemove n \<and> suffix ''.gz.enc'' n))
   \<and> (\<forall>n. \<not> suffix ''.gz.enc'' n \<longrightarrow> map_of (files st') n = map_of (files st) n)
   \<and> dom (map_of (files st')) \<subseteq> dom (map_of (files st))
   \<and> pathsToCheck st' = pathsToCheck st \<and> unchanged st' = unchanged st
   \<and> (\<not> dryRun \<longrightarrow> (\<forall>n \<in> set names. suffix ''.gz.enc'' n \<and> \<not> unr n
                          \<longrightarrow> map_of (files st') n = None))
   \<and> (dryRun \<longrightarrow> files st' = files st)"

definition reaches_switch ::
  "helpers \<Rightarrow> closure \<Rightarrow> walk_entry \<Rightarrow> string \<Rightarrow> FileAttributes \<Rightarrow> bytes \<Rightarrow> bool" where
  "reaches_switch H K e p a cur \<longleftrightarrow>
     \<not> walk_err e \<and> \<not> ctx_Err e \<and> abs_result e = Inr p
     \<and> \<not> prefix (destDirAbs K) p \<and> \<not> list_ex (\<lambda>exclude. exclude p) (rExcludes K)
     \<and> lstat_result e = Inr a \<and> sc_Get (existingSC K) (get_fails e) p = Inr cur
     \<and> \<not> isSocket H (Mode a)"

definition is_special :: "helpers \<Rightarrow> FileAttributes \<Rightarrow> bool" where
  "is_special H a \<longleftrightarrow>
     isCharDevice H (Mode a) \<or> isDevice H (Mode a) \<or> isNamedPipe H (Mode a) \<or> isDir H (Mode a)"

definition regular_entry ::
  "helpers \<Rightarrow> closure \<Rightarrow> walk_entry \<Rightarrow> string \<Rightarrow> FileAttributes \<Rightarrow> bytes \<Rightarrow> bytes \<Rightarrow> bytes \<Rightarrow> bool" where
  "regular_entry H K e p a cur content sg \<longleftrightarrow>
     reaches_switch H K e p a cur \<and> \<not> is_special H a \<and> \<not> isSymlink H (Mode a)
     \<and> open_result e = Inr content
     \<and> GenSignature H \<lparr>Path = p, Attribs = a\<rparr> (Some content) (info_Size e) = Inr sg"

definition symlink_entry ::
  "helpers \<Rightarrow> closure \<Rightarrow> walk_entry \<Rightarrow> string \<Rightarrow> FileAttributes \<Rightarrow> bytes \<Rightarrow> bytes \<Rightarrow> bytes \<Rightarrow> bool" where
  "symlink_entry H K e p a cur dest sg \<longleftrightarrow>
     reaches_switch H K e p a cur \<and> \<not> is_special H a \<and> isSymlink H (Mode a)
     \<and> readlink_result e = Inr dest
     \<and> GenSignature H \<lparr>Path = p, Attribs = a\<rparr> (Some dest) (int (length dest)) = Inr sg"

definition previous_sig :: "closure \<Rightarrow> string \<Rightarrow> bytes option" where
  "previous_sig K p = (case existingSC K of None \<Rightarrow> None | Some (h, es) \<Rightarrow> map_of es p)"

subsection \<open>Concrete inputs\<close>

text \<open>
  A codec and mode tests to run the model on: the signature of a file is its data
  after the letter S, a delta is the new data after the letter D, and the mode tests
  read the type bits of Go's \<open>os.FileMode\<close>.
\<close>

definition demo_helpers :: helpers where
  "demo_helpers =
     \<lparr>GenSignature = (\<lambda>md d n. Inr (CHR ''S'' # (case d of None \<Rightarrow> [] | Some x \<Rightarrow> x))),
      GenDelta = (\<lambda>sg d n. Inr (CHR ''D'' # d)),
      isSocket = (\<lambda>m. bit m 24), isCharDevice = (\<lambda>m. bit m 21), isDevice = (\<lambda>m. bit m 26),
      isNamedPipe = (\<lambda>m. bit m 25), isDir = (\<lambda>m. bit m 31), isSymlink = (\<lambda>m. bit m 27)\<rparr>"

definition ModeDir :: "32 word" where
  "ModeDir = 2147483648"

definition ModeSymlink :: "32 word" where
  "ModeSymlink = 134217728"

text \<open>An entry of the walk for which every call succeeds: its path, mode and data.\<close>

definition demo_entry :: "string \<Rightarrow> 32 word \<Rightarrow> bytes \<Rightarrow> walk_entry" where
  "demo_entry p m c =
     \<lparr>srcRelPath = p, info_Size = int (length c), walk_err = False, ctx_Err = False,
      abs_result = Inr p, lstat_result = Inr (zeroAttribs\<lparr>Mode := m\<rparr>), get_fails = False,
      readlink_result = Inr c, open_result = Inr c, fd_stat_fails = False,
      temp_result = Inr ''1'', seek_fails = False, tmp_stat_fails = False,
      snap_add_fails = False, sc_add_fails = False\<rparr>"

text \<open>A run in which every call succeeds.\<close>

definition demo_env :: run_env where
  "demo_env =
     \<lparr>abs_destDir = Inr ''/backup'', lookupGroup = Inr 0, mkdir_fails = False,
      chown_fails = False, load_fails = False, now = 100, os_hostname = ''h'',
      new_cache_fails = False, readdir_fails = False, cannot_remove = (\<lambda>n. False),
      snap_stem = (\<lambda>h t n. ''snap''), new_snapshot_fails = False,
      tombstone_fails = (\<lambda>p. False), snap_close_fails = False, sc_close_fails = False,
      existing_close_fails = False, rename_fails = False, sig_chown_fails = False\<rparr>"

definition demo_cfg :: "(string \<Rightarrow> bool) list \<Rightarrow> walk_entry list \<Rightarrow> config" where
  "demo_cfg ex es = \<lparr>MaxIntervals = 2, DryRun = False, Excludes = ex, Paths = [(''/src'', es)]\<rparr>"

text \<open>The cache of an earlier run, of increment 0, with the given entries.\<close>

definition demo_cache :: "(string \<times> bytes) list \<Rightarrow> (string \<times> fs_file) list" where
  "demo_cache es =
     [(''sig.cache'', CacheFile \<lparr>hdr_hostname = ''h'', hdr_timeStamp = 5, hdr_instance = 0,
                                 hdr_version = 1\<rparr> es)]"

text \<open>
  A second run over a directory, a changed file, an unchanged file and a new symbolic
  link, with a previous cache that also holds a path that is gone.
\<close>

definition second_run_cfg :: config where
  "second_run_cfg =
     demo_cfg [] [demo_entry ''/src'' ModeDir [], demo_entry ''/src/a'' 0 ''hi'',
                  demo_entry ''/src/b'' 0 ''same'', demo_entry ''/src/l'' ModeSymlink ''a'']"

definition second_run_fs :: "(string \<times> fs_file) list" where
  "second_run_fs = demo_cache [(''/src/a'', ''Sho''), (''/src/b'', ''Ssame''), (''/gone'', ''S'')]"

text \<open>The same walk with the context cancelled when the second entry is reached.\<close>

definition cancelled_entry :: walk_entry where
  "cancelled_entry = (demo_entry ''/src/a'' 0 ''hi'')\<lparr>ctx_Err := True\<rparr>"

definition cancelled_cfg :: config where
  "cancelled_cfg = demo_cfg [] [demo_entry ''/src'' ModeDir [], cancelled_entry]"

text \<open>
  A run that excludes the paths under \<open>/src/tmp\<close>, one of which the previous cache
  holds.
\<close>

definition excludes_tmp :: "string \<Rightarrow> bool" where
  "excludes_tmp p = prefix ''/src/tmp'' p"

definition excluded_cfg :: config where
  "excluded_cfg =
     demo_cfg [excludes_tmp] [demo_entry ''/src'' ModeDir [], demo_entry ''/src/tmp/x'' 0 ''x'']"

definition excluded_fs :: "(string \<times> fs_file) list" where
  "excluded_fs = demo_cache [(''/src/tmp/x'', ''Sx'')]"

text \<open>
  A run whose walk meets \<open>/backup2/f\<close>, a file beside the backup directory
  \<open>/backup\<close> that the previous cache holds.
\<close>

definition sibling_cfg :: config where
  "sibling_cfg = demo_cfg [] [demo_entry ''/backup2/f'' 0 ''x'']"

definition sibling_fs :: "(string \<times> fs_file) list" where
  "sibling_fs = demo_cache [(''/backup2/f'', ''Sx'')]"

text \<open>A run whose walk meets a symbolic link that cannot be read.\<close>

definition broken_link :: walk_entry where
  "broken_link = (demo_entry ''/src/l'' ModeSymlink [])\<lparr>readlink_result := Inl ErrReadlink\<rparr>"

definition broken_link_cfg :: config where
  "broken_link_cfg = demo_cfg [] [demo_entry ''/src'' ModeDir [], broken_link]"

text \<open>A run whose walk meets a regular file that cannot be opened, and then another file.\<close>

definition unreadable :: walk_entry where
  "unreadable = (demo_entry ''/src/a'' 0 ''hi'')\<lparr>open_result := Inl ErrNotExist\<rparr>"

definition unreadable_cfg :: config where
  "unreadable_cfg = demo_cfg [] [unreadable, demo_entry ''/src/b'' 0 ''same'']"

text \<open>
  A backup directory that holds an old snapshot and a cache of increment 2, the
  ceiling of the configuration, so that the next run starts a fresh generation; and
  the configuration of the second run with dry-run set.
\<close>

definition rollover_fs :: "(string \<times> fs_file) list" where
  "rollover_fs =
     [(''old.gz.enc'', DataFile ''x''),
      (''sig.cache'', CacheFile \<lparr>hdr_hostname = ''h'', hdr_timeStamp = 5, hdr_instance = 2,
                                 hdr_version = 1\<rparr> [(''/src/b'', ''Ssame'')])]"

definition dry_run_cfg :: config where
  "dry_run_cfg = second_run_cfg\<lparr>DryRun := True\<rparr>"

text \<open>
  A symbolic link whose target changed from \<open>old\<close> to \<open>new\<close> since the previous
  run, and the inverse of the delta of \<open>demo_helpers\<close>.
\<close>

definition changed_link :: walk_entry where
  "changed_link = demo_entry ''/src/l'' ModeSymlink ''new''"

definition new_link :: walk_entry where
  "new_link = demo_entry ''/src/l'' ModeSymlink ''a''"

definition link_cfg :: config where
  "link_cfg = demo_cfg [] [changed_link]"

definition link_fs :: "(string \<times> fs_file) list" where
  "link_fs = demo_cache [(''/src/l'', ''Sold'')]"

definition demo_apply :: "bytes \<Rightarrow> bytes \<Rightarrow> bytes" where
  "demo_apply prev d = tl d"

text \<open>
  A regular file that changed since the previous run and that the walk reports with a
  size one byte over ten times the memory limit, and the same file with a size at the
  limit.
\<close>

definition large_file :: walk_entry where
  "large_file = (demo_entry ''/src/a'' 0 ''hi'')\<lparr>info_Size := 104857601\<rparr>"

definition limit_file :: walk_entry where
  "limit_file = (demo_entry ''/src/a'' 0 ''hi'')\<lparr>info_Size := 104857600\<rparr>"

text \<open>The definitions that evaluate a run on a concrete input.\<close>

lemmas model_defs = backup_def run_generation_def make_closure_def initial_state_def finalize_def
  new_header_def fresh_generation_def loadExisting_def os_Rename_def
  walkFn_def regularFile_def smallDelta_def largeDelta_def read_data_def close_and_remove_def
  symlinkFile_def specialFile_def cache_only_def record_and_cache_def delete_path_def removeOld_def
  NewMetadata_def sc_Close_def snap_Close_def snap_Add_def snap_records_def
  NewSnapshot_def snapshot_name_def sc_Add_def sc_entries_def sc_Paths_def sc_Get_def
  NewSignatureCache_def LoadSignatureCache_def and_then_def os_Remove_def file_names_def
  put_file_def emit_def say_def inprogress_def sigFile_def FormatVersion_def memoryLimit_def
  zeroAttribs_def suffix_to_prefix Let_def
  run_closure_def run_header_def loaded_def rec_paths_def unchanged_def tombstone_def
  opened_def cleaned_def started_def

lemmas demo_defs = demo_helpers_def demo_entry_def demo_env_def demo_cfg_def demo_cache_def
  ModeDir_def ModeSymlink_def
  second_run_cfg_def second_run_fs_def
  cancelled_entry_def cancelled_cfg_def
  excludes_tmp_def excluded_cfg_def excluded_fs_def sibling_cfg_def sibling_fs_def
  broken_link_def broken_link_cfg_def unreadable_def unreadable_cfg_def
  rollover_fs_def dry_run_cfg_def
  changed_link_def new_link_def link_cfg_def link_fs_def demo_apply_def
  large_file_def limit_file_def

section \<open>Lemmas\<close>

lemma say_simps [simp]:
  "files (say m st) = files st" "events (say m st) = events st"
  "msgs (say m st) = msgs st @ [m]" "pathsToCheck (say m st) = pathsToCheck st"
  by (simp_all add: say_def)

lemma emit_simps [simp]:
  "files (emit ev st) = files st" "events (emit ev st) = events st @ [ev]"
  "msgs (emit ev st) = msgs st" "pathsToCheck (emit ev st) = pathsToCheck st"
  by (simp_all add: emit_def)

lemma put_file_simps [simp]:
  "map_of (files (put_file n f st)) = (map_of (files st))(n \<mapsto> f)"
  "events (put_file n f st) = events st"
  "msgs (put_file n f st) = msgs st" "pathsToCheck (put_file n f st) = pathsToCheck st"
  by (simp_all add: put_file_def update_conv')

lemma delete_path_simps [simp]:
  "files (delete_path p st) = files st" "events (delete_path p st) = events st"
  "msgs (delete_path p st) = msgs st"
  "pathsToCheck (delete_path p st) = removeAll p (pathsToCheck st)"
  by (simp_all add: delete_path_def)

lemma filesExcluded_simps [simp]:
  "files (st\<lparr>filesExcluded := x\<rparr>) = files st"
  by simp

lemma frameI:
  assumes "wf K st'" "map_of (files st') sigFile = map_of (files st) sigFile"
    and "events st' = events st @ evs" "\<forall>ev \<in> set evs. \<not> mutates sigFile ev"
    and "(\<forall>rnd. \<not> unremovable K (''delta'' @ rnd))
          \<Longrightarrow> dom (map_of (files st')) \<subseteq> dom (map_of (files st)) \<union> X"
  shows "frame K X st st'"
  unfolding frame_def using assms by blast

lemma frameE:
  assumes "frame K X st st'"
  obtains evs where "wf K st'" "map_of (files st') sigFile = map_of (files st) sigFile"
    and "events st' = events st @ evs" "\<forall>ev \<in> set evs. \<not> mutates sigFile ev"
    and "(\<forall>rnd. \<not> unremovable K (''delta'' @ rnd))
          \<longrightarrow> dom (map_of (files st')) \<subseteq> dom (map_of (files st)) \<union> X"
  using assms unfolding frame_def by blast

lemma snap_Add_cases:
  assumes "snap_Add n f r st = (st', res)"
  obtains (ok) h rs where "res = None" "map_of (files st) n = Some (SnapFile h rs)"
                     "st' = emit (EvAppend n) (put_file n (SnapFile h (rs @ [r])) st)"
        | (fail) er where "res = Some er" "st' = st"
  using assms by (auto simp: snap_Add_def split: option.splits fs_file.splits if_splits)

lemma sc_Add_cases:
  assumes "sc_Add f p sg st = (st', res)"
  obtains (ok) h es where "res = None" "map_of (files st) inprogress = Some (CacheFile h es)"
                     "p \<notin> fst ` set es"
                     "st' = emit (EvAppend inprogress) (put_file inprogress (CacheFile h (es @ [(p, sg)])) st)"
        | (fail) er where "res = Some er" "st' = st"
  using assms by (auto simp: sc_Add_def split: option.splits fs_file.splits if_splits)

lemma and_then_cases:
  assumes "and_then r f = (st', res)"
  obtains (go) st1 where "r = (st1, None)" "f st1 = (st', res)"
        | (stop) er where "r = (st', Some er)" "res = Some er"
  using assms by (auto simp: and_then_def split: prod.splits option.splits)

lemma sigFile_neq [simp]: "inprogress \<noteq> sigFile" "sigFile \<noteq> inprogress" "''delta'' @ rnd \<noteq> sigFile"
  by (simp_all add: sigFile_def inprogress_def)

lemma wf_say [simp]: "wf K (say m st) = wf K st"
  by (simp add: wf_def)

lemma wf_delete_path [simp]: "wf K (delete_path p st) = wf K st"
  by (simp add: wf_def)

lemma frame_wf: "frame K X st st' \<Longrightarrow> wf K st'"
  by (simp add: frame_def)

lemma frame_refl: "wf K st \<Longrightarrow> frame K {} st st"
  by (simp add: frame_def)

lemma frame_trans:
  assumes "frame K X a b" "frame K Y b c"
  shows "frame K (X \<union> Y) a c"
proof -
  from assms(1) obtain e1 where 1: "events b = events a @ e1" "\<forall>ev \<in> set e1. \<not> mutates sigFile ev"
    "map_of (files b) sigFile = map_of (files a) sigFile"
    "(\<forall>rnd. \<not> unremovable K (''delta'' @ rnd)) \<longrightarrow> dom (map_of (files b)) \<subseteq> dom (map_of (files a)) \<union> X"
    by (rule frameE)
  from assms(2) obtain e2 where 2: "events c = events b @ e2" "\<forall>ev \<in> set e2. \<not> mutates sigFile ev"
    "map_of (files c) sigFile = map_of (files b) sigFile" "wf K c"
    "(\<forall>rnd. \<not> unremovable K (''delta'' @ rnd)) \<longrightarrow> dom (map_of (files c)) \<subseteq> dom (map_of (files b)) \<union> Y"
    by (rule frameE)
  show ?thesis
  proof (rule frameI)
    show "events c = events a @ (e1 @ e2)" using 1 2 by simp
    show "\<forall>ev \<in> set (e1 @ e2). \<not> mutates sigFile ev" using 1 2 by auto
    show "wf K c" by fact
    show "map_of (files c) sigFile = map_of (files a) sigFile" using 1 2 by simp
    show "dom (map_of (files c)) \<subseteq> dom (map_of (files a)) \<union> (X \<union> Y)"
      if "\<forall>rnd. \<not> unremovable K (''delta'' @ rnd)"
      using that 1(4) 2(5) by blast
  qed
qed

lemma frame_trans0: "frame K {} a b \<Longrightarrow> frame K {} b c \<Longrightarrow> frame K {} a c"
  using frame_trans[of K "{}" a b "{}" c] by simp

lemma frame_say: "frame K X st st' \<Longrightarrow> frame K X st (say m st')"
  by (simp add: frame_def)

lemma frame_say_l: "frame K X (say m st) st' \<Longrightarrow> frame K X st st'"
  by (simp add: frame_def)

lemma frame_delete_path: "frame K X st st' \<Longrightarrow> frame K X st (delete_path m st')"
  by (simp add: frame_def)

lemma frame_snap_Add:
  assumes "wf K st" "snap_Add (snapName K) f r st = (st', res)"
  shows "frame K {} st st'"
  using assms(2)
proof (cases rule: snap_Add_cases)
  case (ok h rs)
  show ?thesis
    by (rule frameI[where evs = "[EvAppend (snapName K)]"]) (use ok assms(1) in \<open>auto simp: wf_def\<close>)
next
  case (fail er)
  with assms(1) show ?thesis by (simp add: frame_refl)
qed

lemma frame_sc_Add:
  assumes "wf K st" "sc_Add f p sg st = (st', res)"
  shows "frame K {} st st'"
  using assms(2)
proof (cases rule: sc_Add_cases)
  case (ok h es)
  show ?thesis
    by (rule frameI[where evs = "[EvAppend inprogress]"]) (use ok assms(1) in \<open>auto simp: wf_def\<close>)
next
  case (fail er)
  with assms(1) show ?thesis by (simp add: frame_refl)
qed

lemma frame_record_and_cache:
  assumes "wf K st" "record_and_cache K e MD p sg k pl st = (st', res)"
  shows "frame K {} st st'"
  using assms(2) unfolding record_and_cache_def
proof (cases rule: and_then_cases)
  case (go st1)
  have f1: "frame K {} st st1" using assms(1) go(1) by (rule frame_snap_Add)
  from go(2) show ?thesis
  proof (cases rule: and_then_cases)
    case (go st2)
    have "frame K {} st1 st2" using frame_wf[OF f1] go(1) by (rule frame_sc_Add)
    with f1 go(2) show ?thesis by (auto intro: frame_trans0 frame_delete_path)
  next
    case (stop er)
    have "frame K {} st1 st'" using frame_wf[OF f1] stop(1) by (rule frame_sc_Add)
    with f1 show ?thesis by (rule frame_trans0)
  qed
next
  case (stop er)
  show ?thesis using assms(1) stop(1) by (rule frame_snap_Add)
qed

lemma frame_cache_only:
  assumes "wf K st" "cache_only e p sg st = (st', res)"
  shows "frame K {} st st'"
  using assms(2) unfolding cache_only_def
proof (cases rule: and_then_cases)
  case (go st1)
  have "frame K {} (say (DebugNoChange p) st) st1" using go(1) assms(1) by (auto intro: frame_sc_Add)
  with go(2) show ?thesis by (auto intro: frame_say_l frame_delete_path)
next
  case (stop er)
  have "frame K {} (say (DebugNoChange p) st) st'" using stop(1) assms(1) by (auto intro: frame_sc_Add)
  then show ?thesis by (rule frame_say_l)
qed

lemma frame_specialFile:
  assumes "wf K st" "specialFile H K e MD p cur st = (st', res)"
  shows "frame K {} st st'"
  using assms
  by (auto simp: specialFile_def split: sum.splits if_splits
      intro: frame_refl frame_cache_only frame_say_l[OF frame_record_and_cache])

lemma frame_symlinkFile:
  assumes "wf K st" "symlinkFile H K e MD p cur st = (st', res)"
  shows "frame K {} st st'"
  using assms
  by (auto simp: symlinkFile_def split: sum.splits if_splits
      intro: frame_refl frame_say frame_cache_only frame_say_l[OF frame_record_and_cache])

lemma close_and_remove_eq:
  "close_and_remove K tmp st =
     (if unremovable K tmp \<or> map_of (files st) tmp = None then emit (EvClose tmp) st
      else emit (EvRemove tmp) ((emit (EvClose tmp) st)\<lparr>files := AList.delete tmp (files st)\<rparr>))"
  by (simp add: close_and_remove_def os_Remove_def)

lemma frame_close_and_remove:
  assumes "frame K {tmp} st st1" "tmp \<noteq> sigFile" "tmp \<noteq> snapName K" "tmp \<noteq> inprogress"
    and "map_of (files st1) tmp \<noteq> None"
    and "tmp = ''delta'' @ rnd"
  shows "frame K {} st (close_and_remove K tmp st1)"
proof -
  from assms(1) obtain evs where evs: "events st1 = events st @ evs"
      "\<forall>ev \<in> set evs. \<not> mutates sigFile ev" "wf K st1"
      "map_of (files st1) sigFile = map_of (files st) sigFile"
      "(\<forall>rnd. \<not> unremovable K (''delta'' @ rnd)) \<longrightarrow> dom (map_of (files st1)) \<subseteq> dom (map_of (files st)) \<union> {tmp}"
    by (rule frameE)
  show ?thesis
  proof (cases "unremovable K tmp")
    case True
    show ?thesis
      by (rule frameI[where evs = "evs @ [EvClose tmp]"])
         (use True evs assms in \<open>auto simp add: close_and_remove_eq wf_def\<close>)
  next
    case False
    show ?thesis
      by (rule frameI[where evs = "evs @ [EvClose tmp, EvRemove tmp]"])
         (use False evs assms(2-5) in \<open>auto simp add: close_and_remove_eq wf_def delete_conv'\<close>)
  qed
qed

lemma frame_create_tmp:
  assumes "wf K st" "tmp \<notin> set (file_names st)" "tmp = ''delta'' @ rnd"
  shows "frame K {tmp} st (emit (EvAppend tmp) (put_file tmp (DataFile d2) (emit (EvCreate tmp) (put_file tmp (DataFile d) st))))"
    (is "frame K _ st ?st2")
    and "frame K {tmp} st (emit (EvCreate tmp) (put_file tmp (DataFile d) st))" (is "frame K _ st ?st1")
    and "tmp \<noteq> sigFile" "tmp \<noteq> snapName K" "tmp \<noteq> inprogress"
proof -
  have none: "map_of (files st) tmp = None"
    using assms(2) by (simp add: file_names_def map_of_eq_None_iff)
  show ne: "tmp \<noteq> sigFile" "tmp \<noteq> snapName K" "tmp \<noteq> inprogress"
    using assms(1,3) none by (auto simp: wf_def sigFile_def)
  show "frame K {tmp} st ?st1"
    by (rule frameI[where evs = "[EvCreate tmp]"]) (use assms(1) ne in \<open>auto simp: wf_def\<close>)
  show "frame K {tmp} st ?st2"
    by (rule frameI[where evs = "[EvCreate tmp, EvAppend tmp]"]) (use assms(1) ne in \<open>auto simp: wf_def\<close>)
qed

lemma frame_mono: "frame K X st st' \<Longrightarrow> X \<subseteq> Y \<Longrightarrow> frame K Y st st'"
  unfolding frame_def by blast

lemma frame_largeDelta:
  assumes "wf K st" "largeDelta H K e MD cur content st = (st', res)"
  shows "frame K {} st st'"
proof (cases "temp_result e")
  case (Inl er)
  with assms show ?thesis by (simp add: largeDelta_def frame_refl)
next
  case (Inr rnd)
  define tmp where "tmp = ''delta'' @ rnd"
  show ?thesis
  proof (cases "tmp \<in> set (file_names st)")
    case True
    with assms Inr show ?thesis by (simp add: largeDelta_def frame_refl tmp_def)
  next
    case False
    note fr = frame_create_tmp[OF assms(1) False tmp_def]
    show ?thesis
    proof (cases "GenDelta H cur content (info_Size e)")
      case (Inl er)
      have "st' = close_and_remove K tmp (emit (EvCreate tmp) (put_file tmp (DataFile []) st))"
        using assms(2) Inr False Inl \<open>temp_result e = Inr rnd\<close>
        by (simp add: largeDelta_def tmp_def Let_def)
      then show ?thesis
        using frame_close_and_remove[OF fr(2)[of "[]"] fr(3,4,5) _ tmp_def] by simp
    next
      case (Inr delta)
      let ?st2 = "emit (EvAppend tmp) (put_file tmp (DataFile delta) (emit (EvCreate tmp) (put_file tmp (DataFile []) st)))"
      have f2: "frame K {tmp} st ?st2" by (rule fr(1))
      consider (a) "st' = close_and_remove K tmp ?st2"
        | (b) st3 r where "snap_Add (snapName K) (snap_add_fails e)
                 \<lparr>rMD = MD, rKind = KindDelta, rPayload = read_data tmp ?st2\<rparr> ?st2 = (st3, r)"
               "st' = close_and_remove K tmp st3"
        using assms(2) Inr False \<open>temp_result e = Inr rnd\<close>
        by (auto simp add: largeDelta_def tmp_def Let_def split: if_splits prod.splits option.splits)
      then show ?thesis
      proof cases
        case a
        then show ?thesis
          using frame_close_and_remove[OF f2 fr(3,4,5) _ tmp_def] by simp
      next
        case b
        have f3: "frame K {} ?st2 st3" using frame_wf[OF f2] b(1) by (rule frame_snap_Add)
        have f23: "frame K {tmp} st st3" using frame_trans[OF f2 f3] by simp
        have "map_of (files st3) tmp \<noteq> None"
          using b(1) fr(4) by (cases rule: snap_Add_cases) auto
        then show ?thesis
          using frame_close_and_remove[OF f23 fr(3,4,5) _ tmp_def] b(2) by simp
      qed
    qed
  qed
qed

lemma frame_smallDelta:
  assumes "wf K st" "smallDelta H K e MD cur content st = (st', res)"
  shows "frame K {} st st'"
  using assms
  by (auto simp: smallDelta_def split: sum.splits intro: frame_refl frame_snap_Add)

lemma frame_add_tail:
  assumes "frame K {} st st1"
    and "and_then (sc_Add f p sg st1) (\<lambda>st2. (delete_path p st2, None)) = (st', res)"
  shows "frame K {} st st'"
  using assms(2)
proof (cases rule: and_then_cases)
  case (go st2)
  have "frame K {} st1 st2" using frame_wf[OF assms(1)] go(1) by (rule frame_sc_Add)
  with assms(1) go(2) show ?thesis by (auto intro: frame_trans0 frame_delete_path)
next
  case (stop er)
  have "frame K {} st1 st'" using frame_wf[OF assms(1)] stop(1) by (rule frame_sc_Add)
  with assms(1) show ?thesis by (rule frame_trans0)
qed

lemma frame_regularFile:
  assumes "wf K st" "regularFile H K e MD p cur st = (st', res)"
  shows "frame K {} st st'"
proof (cases "open_result e")
  case (Inl er)
  with assms show ?thesis by (auto simp: regularFile_def intro: frame_say frame_refl)
next
  case (Inr content)
  note op = this
  show ?thesis
  proof (cases "GenSignature H MD (Some content) (info_Size e)")
    case (Inl er)
    with assms op show ?thesis by (auto simp: regularFile_def intro: frame_refl)
  next
    case (Inr thisSig)
    show ?thesis
    proof (cases "cur = thisSig")
      case True
      with assms op Inr show ?thesis by (auto simp: regularFile_def intro: frame_cache_only)
    next
      case False
      define first where "first =
         (if cur \<noteq> [] then
            (if info_Size e > memoryLimit * 10
             then largeDelta H K e MD cur content (say (DebugChanged p) st)
             else smallDelta H K e MD cur content (say (DebugChanged p) st))
          else
            (if fd_stat_fails e then (say (DebugNewFile p) st, Some ErrStat)
             else snap_Add (snapName K) (snap_add_fails e)
                    \<lparr>rMD = MD, rKind = KindFull, rPayload = content\<rparr>
                    (say (DebugNewFile p) st)))"
      have eq: "and_then first (\<lambda>st1. and_then (sc_Add (sc_add_fails e) p thisSig st1)
                      (\<lambda>st2. (delete_path p st2, None))) = (st', res)"
        using assms(2) op Inr False by (simp add: regularFile_def first_def)
      have ff: "frame K {} st (fst first)"
      proof -
        have a: "frame K {} st (fst (largeDelta H K e MD cur content (say (DebugChanged p) st)))"
          using assms(1) by (auto intro!: frame_say_l[OF frame_largeDelta[OF _ surjective_pairing]])
        have b: "frame K {} st (fst (smallDelta H K e MD cur content (say (DebugChanged p) st)))"
          using assms(1) by (auto intro!: frame_say_l[OF frame_smallDelta[OF _ surjective_pairing]])
        have c: "frame K {} st (fst (snap_Add (snapName K) (snap_add_fails e)
                    \<lparr>rMD = MD, rKind = KindFull, rPayload = content\<rparr>
                    (say (DebugNewFile p) st)))"
          using assms(1) by (auto intro!: frame_say_l[OF frame_snap_Add[OF _ surjective_pairing]])
        have d: "frame K {} st (say (DebugNewFile p) st)"
          using assms(1) by (auto intro: frame_say frame_refl)
        show ?thesis unfolding first_def using a b c d by simp
      qed
      from eq show ?thesis
      proof (cases rule: and_then_cases)
        case (go st1)
        with ff show ?thesis by (auto intro: frame_add_tail)
      next
        case (stop er)
        with ff show ?thesis by simp
      qed
    qed
  qed
qed

lemma walkFn_cases:
  assumes "walkFn H K e st = (st', res)"
  obtains (walk_error) "walk_err e" "st' = say ErrWalk st" "res = None"
    | (cancelled) "\<not> walk_err e" "ctx_Err e" "st' = st" "res = Some ErrCancelled"
    | (failed) er where "\<not> walk_err e" "\<not> ctx_Err e" "st' = st" "res = Some er"
        "abs_result e = Inl er \<or> (\<exists>p. abs_result e = Inr p \<and> \<not> prefix (destDirAbs K) p
            \<and> \<not> list_ex (\<lambda>x. x p) (rExcludes K)
            \<and> (lstat_result e = Inl er \<or> sc_Get (existingSC K) (get_fails e) p = Inl er))"
    | (inside) p where "\<not> walk_err e" "\<not> ctx_Err e" "abs_result e = Inr p"
        "prefix (destDirAbs K) p" "st' = st" "res = None"
    | (excluded) p where "\<not> walk_err e" "\<not> ctx_Err e" "abs_result e = Inr p"
        "\<not> prefix (destDirAbs K) p" "list_ex (\<lambda>x. x p) (rExcludes K)"
        "st' = say (DebugExcluding p) (st\<lparr>filesExcluded := filesExcluded st + 1\<rparr>)" "res = None"
    | (socket) p a cur where "\<not> walk_err e" "\<not> ctx_Err e" "abs_result e = Inr p"
        "\<not> prefix (destDirAbs K) p" "\<not> list_ex (\<lambda>x. x p) (rExcludes K)"
        "lstat_result e = Inr a" "sc_Get (existingSC K) (get_fails e) p = Inr cur"
        "isSocket H (Mode a)" "st' = say (DebugSkippingSocket p) st" "res = None"
    | (special) p a cur where "\<not> walk_err e" "\<not> ctx_Err e" "abs_result e = Inr p"
        "\<not> prefix (destDirAbs K) p" "\<not> list_ex (\<lambda>x. x p) (rExcludes K)"
        "lstat_result e = Inr a" "sc_Get (existingSC K) (get_fails e) p = Inr cur"
        "\<not> isSocket H (Mode a)"
        "isCharDevice H (Mode a) \<or> isDevice H (Mode a) \<or> isNamedPipe H (Mode a) \<or> isDir H (Mode a)"
        "specialFile H K e \<lparr>Path = p, Attribs = a\<rparr> p cur st = (st', res)"
    | (symlink) p a cur where "\<not> walk_err e" "\<not> ctx_Err e" "abs_result e = Inr p"
        "\<not> prefix (destDirAbs K) p" "\<not> list_ex (\<lambda>x. x p) (rExcludes K)"
        "lstat_result e = Inr a" "sc_Get (existingSC K) (get_fails e) p = Inr cur"
        "\<not> isSocket H (Mode a)"
        "\<not> (isCharDevice H (Mode a) \<or> isDevice H (Mode a) \<or> isNamedPipe H (Mode a) \<or> isDir H (Mode a))"
        "isSymlink H (Mode a)"
        "symlinkFile H K e \<lparr>Path = p, Attribs = a\<rparr> p cur st = (st', res)"
    | (regular) p a cur where "\<not> walk_err e" "\<not> ctx_Err e" "abs_result e = Inr p"
        "\<not> prefix (destDirAbs K) p" "\<not> list_ex (\<lambda>x. x p) (rExcludes K)"
        "lstat_result e = Inr a" "sc_Get (existingSC K) (get_fails e) p = Inr cur"
        "\<not> isSocket H (Mode a)"
        "\<not> (isCharDevice H (Mode a) \<or> isDevice H (Mode a) \<or> isNamedPipe H (Mode a) \<or> isDir H (Mode a))"
        "\<not> isSymlink H (Mode a)"
        "regularFile H K e \<lparr>Path = p, Attribs = a\<rparr> p cur st = (st', res)"
proof (cases "walk_err e")
  case True
  then show ?thesis using assms that(1) by (simp add: walkFn_def)
next
  case nw: False
  show ?thesis
  proof (cases "ctx_Err e")
    case True
    then show ?thesis using nw assms that(2) by (simp add: walkFn_def)
  next
    case nc: False
    show ?thesis
    proof (cases "abs_result e")
      case (Inl er)
      then show ?thesis using nw nc assms that(3)[of er] by (simp add: walkFn_def)
    next
      case ab: (Inr p)
      show ?thesis
      proof (cases "prefix (destDirAbs K) p")
        case True
        then show ?thesis using nw nc ab assms that(4)[of p] by (simp add: walkFn_def)
      next
        case np: False
        show ?thesis
        proof (cases "list_ex (\<lambda>x. x p) (rExcludes K)")
          case True
          then show ?thesis using nw nc ab np assms that(5)[of p] by (simp add: walkFn_def)
        next
          case nx: False
          show ?thesis
          proof (cases "lstat_result e")
            case (Inl er)
            then show ?thesis using nw nc ab np nx assms that(3)[of er]
              by (simp add: walkFn_def NewMetadata_def)
          next
            case ls: (Inr a)
            show ?thesis
            proof (cases "sc_Get (existingSC K) (get_fails e) p")
              case (Inl er)
              then show ?thesis using nw nc ab np nx ls assms that(3)[of er]
                by (simp add: walkFn_def NewMetadata_def)
            next
              case (Inr cur)
              note gt = this
              let ?MD = "\<lparr>Path = p, Attribs = a\<rparr>"
              have eq: "walkFn H K e st =
                 (if isSocket H (Mode a) then (say (DebugSkippingSocket p) st, None)
                  else if isCharDevice H (Mode a) \<or> isDevice H (Mode a)
                          \<or> isNamedPipe H (Mode a) \<or> isDir H (Mode a)
                  then specialFile H K e ?MD p cur st
                  else if isSymlink H (Mode a) then symlinkFile H K e ?MD p cur st
                  else regularFile H K e ?MD p cur st)"
                using nw nc ab np nx ls gt by (simp add: walkFn_def NewMetadata_def Let_def)
              show ?thesis
              proof (cases "isSocket H (Mode a)")
                case True
                then show ?thesis using eq assms nw nc ab np nx ls gt by (intro that(6)[of p a cur]) simp_all
              next
                case ns: False
                show ?thesis
                proof (cases "isCharDevice H (Mode a) \<or> isDevice H (Mode a)
                          \<or> isNamedPipe H (Mode a) \<or> isDir H (Mode a)")
                  case True
                  then show ?thesis using eq assms nw nc ab np nx ls gt ns
                    by (intro that(7)[of p a cur]) simp_all
                next
                  case nsp: False
                  show ?thesis
                  proof (cases "isSymlink H (Mode a)")
                    case True
                    then show ?thesis using eq assms nw nc ab np nx ls gt ns nsp
                      by (intro that(8)[of p a cur]) simp_all
                  next
                    case False
                    then show ?thesis using eq assms nw nc ab np nx ls gt ns nsp
                      by (intro that(9)[of p a cur]) simp_all
                  qed
                qed
              qed
            qed
          qed
        qed
      qed
    qed
  qed
qed

lemma frame_walkFn:
  assumes "wf K st" "walkFn H K e st = (st', res)"
  shows "frame K {} st st'"
  using assms(2)
proof (cases rule: walkFn_cases)
  case (excluded p)
  have "wf K st'" using assms(1) excluded by (simp add: wf_def)
  then show ?thesis using excluded by (auto intro!: frameI[where evs = "[]"])
qed (use assms(1) in \<open>auto intro: frame_refl frame_say frame_specialFile frame_symlinkFile frame_regularFile\<close>)

lemma frame_walk:
  assumes "wf K st" "walk H K es st = (st', res)"
  shows "frame K {} st st'"
  using assms
proof (induction es arbitrary: st)
  case Nil
  then show ?case by (simp add: frame_refl)
next
  case (Cons e es)
  obtain st1 r1 where w: "walkFn H K e st = (st1, r1)" by (cases "walkFn H K e st")
  have f1: "frame K {} st st1" using Cons.prems(1) w by (rule frame_walkFn)
  show ?case
  proof (cases r1)
    case None
    with w Cons.prems(2) have "walk H K es st1 = (st', res)" by simp
    then have "frame K {} st1 st'" using Cons.IH frame_wf[OF f1] by blast
    with f1 show ?thesis by (rule frame_trans0)
  next
    case (Some er)
    with w Cons.prems(2) f1 show ?thesis by simp
  qed
qed

lemma snap_records_simps [simp]:
  "snap_records n (say m st) = snap_records n st"
  "snap_records n (emit ev st) = snap_records n st"
  "snap_records n (delete_path p st) = snap_records n st"
  "snap_records n (put_file n' f st) =
     (if n' = n then (case f of SnapFile h rs \<Rightarrow> rs | _ \<Rightarrow> []) else snap_records n st)"
  by (simp_all add: snap_records_def)

lemma sc_entries_simps [simp]:
  "sc_entries (say m st) = sc_entries st"
  "sc_entries (emit ev st) = sc_entries st"
  "sc_entries (delete_path p st) = sc_entries st"
  "sc_entries (put_file n' f st) =
     (if n' = inprogress then (case f of CacheFile h es \<Rightarrow> es | _ \<Rightarrow> []) else sc_entries st)"
  by (simp_all add: sc_entries_def)

lemma unchanged_simps [simp]:
  "unchanged (say m st) = (case m of DebugNoChange p \<Rightarrow> insert p (unchanged st) | _ \<Rightarrow> unchanged st)"
  "unchanged (emit ev st) = unchanged st"
  "unchanged (delete_path p st) = unchanged st"
  "unchanged (put_file n' f st) = unchanged st"
  by (auto simp: unchanged_def split: msg.splits)

lemma snap_Add_added:
  assumes "wf K st" "snap_Add (snapName K) f r st = (st', None)"
  shows "snap_added K r st st'"
  using assms(2)
proof (cases rule: snap_Add_cases)
  case (ok h rs)
  then show ?thesis using assms(1) by (auto simp: snap_added_def wf_def snap_records_def)
qed simp

lemma sc_Add_added:
  assumes "sc_Add f p sg st = (st', None)"
  shows "cache_added K p sg st (delete_path p st')"
  using assms(1)
proof (cases rule: sc_Add_cases)
  case (ok h es)
  then show ?thesis by (auto simp: cache_added_def sc_entries_def snap_records_def)
qed simp

lemma rec_stepI: "snap_added K r st st1 \<Longrightarrow> cache_added K p sg st1 st' \<Longrightarrow> rec_step K p sg r st st'"
  by (simp add: snap_added_def cache_added_def rec_step_def)

lemma snap_added_say:
  "snap_added K r (say m st) st' \<Longrightarrow> \<forall>p. m \<noteq> DebugNoChange p \<Longrightarrow> snap_added K r st st'"
  by (cases m) (simp_all add: snap_added_def)

lemma rec_step_say:
  "rec_step K p sg r (say m st) st' \<Longrightarrow> \<forall>p. m \<noteq> DebugNoChange p \<Longrightarrow> rec_step K p sg r st st'"
  by (cases m) (simp_all add: rec_step_def)

lemma add_tail_effect:
  assumes "and_then (sc_Add f p sg st1) (\<lambda>st2. (delete_path p st2, None)) = (st', None)"
  shows "cache_added K p sg st1 st'"
  using assms
proof (cases rule: and_then_cases)
  case (go st2)
  then show ?thesis using sc_Add_added[of f p sg st1 st2 K] by simp
qed simp

lemma record_and_cache_effect:
  assumes "wf K st" "record_and_cache K e MD p sg k pl st = (st', None)"
  shows "rec_step K p sg \<lparr>rMD = MD, rKind = k, rPayload = pl\<rparr> st st'"
  using assms(2) unfolding record_and_cache_def
proof (cases rule: and_then_cases)
  case (go st1)
  have "snap_added K \<lparr>rMD = MD, rKind = k, rPayload = pl\<rparr> st st1"
    using assms(1) go(1) by (rule snap_Add_added)
  moreover have "cache_added K p sg st1 st'" using go(2) by (rule add_tail_effect)
  ultimately show ?thesis by (rule rec_stepI)
qed simp

lemma cache_only_effect:
  assumes "cache_only e p sg st = (st', None)"
  shows "same_step K p sg st st'"
proof -
  have "cache_added K p sg (say (DebugNoChange p) st) st'"
    using assms unfolding cache_only_def by (rule add_tail_effect)
  then show ?thesis by (simp add: cache_added_def same_step_def)
qed

lemma specialFile_effect:
  assumes "wf K st" "specialFile H K e MD p cur st = (st', None)"
  shows "(\<exists>sg. GenSignature H MD None 0 = Inr sg \<and> cur \<noteq> sg
            \<and> rec_step K p sg \<lparr>rMD = MD, rKind = KindMeta, rPayload = []\<rparr> st st')
         \<or> (GenSignature H MD None 0 = Inr cur \<and> same_step K p cur st st')"
proof (cases "GenSignature H MD None 0")
  case (Inl er)
  with assms show ?thesis by (simp add: specialFile_def)
next
  case (Inr sg)
  show ?thesis
  proof (cases "cur = sg")
    case True
    with assms Inr show ?thesis by (simp add: specialFile_def cache_only_effect)
  next
    case False
    let ?m = "if cur \<noteq> [] then DebugChanged p else DebugNewFile p"
    have "record_and_cache K e MD p sg KindMeta [] (say ?m st) = (st', None)"
      using assms(2) Inr False by (simp add: specialFile_def)
    then have "rec_step K p sg \<lparr>rMD = MD, rKind = KindMeta, rPayload = []\<rparr> (say ?m st) st'"
      using assms(1) by (intro record_and_cache_effect) simp_all
    then have "rec_step K p sg \<lparr>rMD = MD, rKind = KindMeta, rPayload = []\<rparr> st st'"
      by (rule rec_step_say) simp
    with Inr False show ?thesis by simp
  qed
qed

lemma symlinkFile_effect:
  assumes "wf K st" "symlinkFile H K e MD p cur st = (st', None)"
  shows "\<exists>dest sg. readlink_result e = Inr dest
           \<and> GenSignature H MD (Some dest) (int (length dest)) = Inr sg
           \<and> (if cur = sg then same_step K p cur st st'
               else if cur = [] then
                 rec_step K p sg \<lparr>rMD = MD, rKind = KindFull, rPayload = dest\<rparr> st st'
               else (\<exists>delta. GenDelta H cur dest (int (length dest)) = Inr delta
                 \<and> rec_step K p sg \<lparr>rMD = MD, rKind = KindDelta, rPayload = delta\<rparr> st st'))"
proof (cases "readlink_result e")
  case (Inl er)
  with assms show ?thesis by (simp add: symlinkFile_def)
next
  case rl: (Inr dest)
  show ?thesis
  proof (cases "GenSignature H MD (Some dest) (int (length dest))")
    case (Inl er)
    with assms rl show ?thesis by (simp add: symlinkFile_def)
  next
    case gs: (Inr sg)
    show ?thesis
    proof (cases "cur = sg")
      case True
      with assms rl gs show ?thesis by (simp add: symlinkFile_def cache_only_effect)
    next
      case ne: False
      show ?thesis
      proof (cases "cur = []")
        case True
        have "record_and_cache K e MD p sg KindFull dest (say (DebugNewFile p) st) = (st', None)"
          using assms(2) rl gs ne True by (simp add: symlinkFile_def)
        then have "rec_step K p sg \<lparr>rMD = MD, rKind = KindFull, rPayload = dest\<rparr>
                     (say (DebugNewFile p) st) st'"
          using assms(1) by (intro record_and_cache_effect) simp_all
        then have "rec_step K p sg \<lparr>rMD = MD, rKind = KindFull, rPayload = dest\<rparr> st st'"
          by (rule rec_step_say) simp
        with rl gs ne True show ?thesis by simp
      next
        case False
        show ?thesis
        proof (cases "GenDelta H cur dest (int (length dest))")
          case (Inl er)
          with assms rl gs ne False show ?thesis by (simp add: symlinkFile_def)
        next
          case (Inr delta)
          have "record_and_cache K e MD p sg KindDelta delta (say (DebugChanged p) st) = (st', None)"
            using assms(2) rl gs ne False Inr by (simp add: symlinkFile_def)
          then have "rec_step K p sg \<lparr>rMD = MD, rKind = KindDelta, rPayload = delta\<rparr>
                       (say (DebugChanged p) st) st'"
            using assms(1) by (intro record_and_cache_effect) simp_all
          then have "rec_step K p sg \<lparr>rMD = MD, rKind = KindDelta, rPayload = delta\<rparr> st st'"
            by (rule rec_step_say) simp
          with rl gs ne False Inr show ?thesis by simp
        qed
      qed
    qed
  qed
qed

lemma close_and_remove_observed:
  assumes "tmp \<noteq> snapName K" "tmp \<noteq> inprogress"
  shows "snap_records (snapName K) (close_and_remove K tmp st) = snap_records (snapName K) st"
    and "sc_entries (close_and_remove K tmp st) = sc_entries st"
    and "pathsToCheck (close_and_remove K tmp st) = pathsToCheck st"
    and "unchanged (close_and_remove K tmp st) = unchanged st"
    and "msgs (close_and_remove K tmp st) = msgs st"
  using assms
  by (simp_all add: close_and_remove_eq snap_records_def sc_entries_def unchanged_def delete_conv')

lemma close_and_remove_events:
  "events (close_and_remove K tmp st) =
     events st @ (if unremovable K tmp \<or> map_of (files st) tmp = None then [EvClose tmp]
                  else [EvClose tmp, EvRemove tmp])"
  by (simp add: close_and_remove_eq)

lemma close_and_remove_gone:
  "\<not> unremovable K tmp \<Longrightarrow> map_of (files (close_and_remove K tmp st)) tmp = None"
  by (simp add: close_and_remove_eq delete_conv')

text \<open>The ways out of \<open>largeDelta\<close> once the temporary file exists.\<close>

lemma largeDelta_cases:
  assumes "largeDelta H K e MD cur content st = (st', res)"
    and "temp_result e = Inr rnd" "''delta'' @ rnd \<notin> set (file_names st)"
  obtains (delta_failed) er where "GenDelta H cur content (info_Size e) = Inl er" "res = Some er"
      "st' = close_and_remove K (''delta'' @ rnd)
               (emit (EvCreate (''delta'' @ rnd)) (put_file (''delta'' @ rnd) (DataFile []) st))"
  | (tmp_failed) delta er where "GenDelta H cur content (info_Size e) = Inr delta" "res = Some er"
      "seek_fails e \<or> tmp_stat_fails e"
      "st' = close_and_remove K (''delta'' @ rnd)
               (emit (EvAppend (''delta'' @ rnd)) (put_file (''delta'' @ rnd) (DataFile delta)
                 (emit (EvCreate (''delta'' @ rnd)) (put_file (''delta'' @ rnd) (DataFile []) st))))"
  | (added) delta st3 where "GenDelta H cur content (info_Size e) = Inr delta"
      "\<not> seek_fails e" "\<not> tmp_stat_fails e"
      "snap_Add (snapName K) (snap_add_fails e) \<lparr>rMD = MD, rKind = KindDelta, rPayload = delta\<rparr>
         (emit (EvAppend (''delta'' @ rnd)) (put_file (''delta'' @ rnd) (DataFile delta)
           (emit (EvCreate (''delta'' @ rnd)) (put_file (''delta'' @ rnd) (DataFile []) st))))
       = (st3, res)"
      "st' = close_and_remove K (''delta'' @ rnd) st3"
proof (cases "GenDelta H cur content (info_Size e)")
  case (Inl er)
  then show ?thesis using assms that(1)[of er] by (simp add: largeDelta_def Let_def)
next
  case (Inr delta)
  let ?st2 = "emit (EvAppend (''delta'' @ rnd)) (put_file (''delta'' @ rnd) (DataFile delta)
                 (emit (EvCreate (''delta'' @ rnd)) (put_file (''delta'' @ rnd) (DataFile []) st)))"
  have rd: "read_data (''delta'' @ rnd) ?st2 = delta" by (simp add: read_data_def)
  show ?thesis
  proof (cases "seek_fails e \<or> tmp_stat_fails e")
    case True
    then show ?thesis using assms Inr that(2)[of delta]
      by (cases "seek_fails e") (auto simp add: largeDelta_def Let_def)
  next
    case False
    obtain st3 r where sa: "snap_Add (snapName K) (snap_add_fails e)
        \<lparr>rMD = MD, rKind = KindDelta, rPayload = delta\<rparr> ?st2 = (st3, r)"
      by (cases "snap_Add (snapName K) (snap_add_fails e)
        \<lparr>rMD = MD, rKind = KindDelta, rPayload = delta\<rparr> ?st2")
    have "st' = close_and_remove K (''delta'' @ rnd) st3 \<and> res = r"
      using assms Inr False sa rd
      by (cases r) (simp_all add: largeDelta_def Let_def del: append.simps)
    then show ?thesis using that(3)[of delta st3] Inr False sa by simp
  qed
qed

lemma largeDelta_effect:
  assumes "wf K st" "largeDelta H K e MD cur content st = (st', None)"
  shows "\<exists>delta. GenDelta H cur content (info_Size e) = Inr delta
           \<and> snap_added K \<lparr>rMD = MD, rKind = KindDelta, rPayload = delta\<rparr> st st'"
proof (cases "temp_result e")
  case (Inl er)
  with assms show ?thesis by (simp add: largeDelta_def)
next
  case (Inr rnd)
  show ?thesis
  proof (cases "''delta'' @ rnd \<in> set (file_names st)")
    case True
    with assms Inr show ?thesis by (simp add: largeDelta_def)
  next
    case False
    note fr = frame_create_tmp[OF assms(1) False refl]
    from assms(2) Inr False show ?thesis
    proof (cases rule: largeDelta_cases)
      case (added delta st3)
      let ?st2 = "emit (EvAppend (''delta'' @ rnd)) (put_file (''delta'' @ rnd) (DataFile delta)
                 (emit (EvCreate (''delta'' @ rnd)) (put_file (''delta'' @ rnd) (DataFile []) st)))"
      have "snap_added K \<lparr>rMD = MD, rKind = KindDelta, rPayload = delta\<rparr> ?st2 st3"
        using frame_wf[OF fr(1)] added(4) by (rule snap_Add_added)
      then have "snap_added K \<lparr>rMD = MD, rKind = KindDelta, rPayload = delta\<rparr> st st'"
        using fr(4,5) added(5)
        by (simp add: snap_added_def close_and_remove_observed del: append.simps)
      with added(1) show ?thesis by blast
    qed simp_all
  qed
qed

lemma smallDelta_effect:
  assumes "wf K st" "smallDelta H K e MD cur content st = (st', None)"
  shows "\<exists>delta. GenDelta H cur content (info_Size e) = Inr delta
           \<and> snap_added K \<lparr>rMD = MD, rKind = KindDelta, rPayload = delta\<rparr> st st'"
  using assms by (auto simp: smallDelta_def split: sum.splits intro: snap_Add_added)

lemma regularFile_effect:
  assumes "wf K st" "regularFile H K e MD p cur st = (st', None)"
  shows "(\<exists>er. open_result e = Inl er \<and> st' = say StderrOpen st)
       \<or> (\<exists>content sg. open_result e = Inr content
             \<and> GenSignature H MD (Some content) (info_Size e) = Inr sg
             \<and> (if cur = sg then same_step K p cur st st'
                 else if cur = [] then
                   rec_step K p sg \<lparr>rMD = MD, rKind = KindFull, rPayload = content\<rparr> st st'
                 else (\<exists>delta. GenDelta H cur content (info_Size e) = Inr delta
                   \<and> rec_step K p sg \<lparr>rMD = MD, rKind = KindDelta, rPayload = delta\<rparr> st st')))"
proof (cases "open_result e")
  case (Inl er)
  with assms show ?thesis by (simp add: regularFile_def)
next
  case op: (Inr content)
  show ?thesis
  proof (cases "GenSignature H MD (Some content) (info_Size e)")
    case (Inl er)
    with assms op show ?thesis by (simp add: regularFile_def)
  next
    case gs: (Inr sg)
    show ?thesis
    proof (cases "cur = sg")
      case True
      with assms op gs show ?thesis by (simp add: regularFile_def cache_only_effect)
    next
      case ne: False
      define first where "first =
         (if cur \<noteq> [] then
            (if info_Size e > memoryLimit * 10
             then largeDelta H K e MD cur content (say (DebugChanged p) st)
             else smallDelta H K e MD cur content (say (DebugChanged p) st))
          else
            (if fd_stat_fails e then (say (DebugNewFile p) st, Some ErrStat)
             else snap_Add (snapName K) (snap_add_fails e)
                    \<lparr>rMD = MD, rKind = KindFull, rPayload = content\<rparr>
                    (say (DebugNewFile p) st)))"
      have eq: "and_then first (\<lambda>st1. and_then (sc_Add (sc_add_fails e) p sg st1)
                      (\<lambda>st2. (delete_path p st2, None))) = (st', None)"
        using assms(2) op gs ne by (simp add: regularFile_def first_def)
      from eq show ?thesis
      proof (cases rule: and_then_cases)
        case (go st1)
        have tail: "cache_added K p sg st1 st'" using go(2) by (rule add_tail_effect)
        show ?thesis
        proof (cases "cur = []")
          case True
          have "snap_Add (snapName K) (snap_add_fails e)
                    \<lparr>rMD = MD, rKind = KindFull, rPayload = content\<rparr>
                    (say (DebugNewFile p) st) = (st1, None)"
            using go(1) True by (simp add: first_def split: if_splits)
          then have "snap_added K \<lparr>rMD = MD, rKind = KindFull, rPayload = content\<rparr>
                       (say (DebugNewFile p) st) st1"
            using assms(1) by (intro snap_Add_added) simp_all
          then have "snap_added K \<lparr>rMD = MD, rKind = KindFull, rPayload = content\<rparr> st st1"
            by (rule snap_added_say) simp
          then show ?thesis using tail op gs ne True by (simp add: rec_stepI)
        next
          case False
          have "\<exists>delta. GenDelta H cur content (info_Size e) = Inr delta
                  \<and> snap_added K \<lparr>rMD = MD, rKind = KindDelta, rPayload = delta\<rparr>
                       (say (DebugChanged p) st) st1"
          proof (cases "info_Size e > memoryLimit * 10")
            case True
            then have "largeDelta H K e MD cur content (say (DebugChanged p) st) = (st1, None)"
              using go(1) False by (simp add: first_def)
            then show ?thesis using assms(1) by (intro largeDelta_effect) simp_all
          next
            case False
            then have "smallDelta H K e MD cur content (say (DebugChanged p) st) = (st1, None)"
              using go(1) \<open>cur \<noteq> []\<close> by (simp add: first_def)
            then show ?thesis using assms(1) by (intro smallDelta_effect) simp_all
          qed
          then obtain delta where d: "GenDelta H cur content (info_Size e) = Inr delta"
            "snap_added K \<lparr>rMD = MD, rKind = KindDelta, rPayload = delta\<rparr>
                       (say (DebugChanged p) st) st1" by blast
          have "snap_added K \<lparr>rMD = MD, rKind = KindDelta, rPayload = delta\<rparr> st st1"
            using d(2) by (rule snap_added_say) simp
          then show ?thesis using tail op gs ne False d(1) by (simp add: rec_stepI)
        qed
      qed simp
    qed
  qed
qed

lemma cached_eq: "sc_Get ex f p = Inr cur \<Longrightarrow> existingSC K = ex \<Longrightarrow> cached K p = cur"
  by (auto simp: cached_def sc_Get_def split: if_splits option.splits prod.splits)

lemma no_effect_say: "\<forall>p. m \<noteq> DebugNoChange p \<Longrightarrow> no_effect K st (say m st)"
  by (cases m) (simp_all add: no_effect_def)

lemma walkFn_effect:
  assumes "wf K st" "walkFn H K e st = (st', None)"
  shows "entry_step K e st st'"
  using assms(2)
proof (cases rule: walkFn_cases)
  case (excluded p)
  then show ?thesis
    by (simp add: entry_step_def no_effect_def snap_records_def sc_entries_def unchanged_def)
next
  case (special p a cur)
  have c: "cached K p = cur" using special(7) by (rule cached_eq) simp
  have "ok_path K p" using special by (simp add: ok_path_def)
  then show ?thesis
    using specialFile_effect[OF assms(1) special(10)] special(3,6) c
    unfolding entry_step_def by fastforce
next
  case (symlink p a cur)
  have c: "cached K p = cur" using symlink(7) by (rule cached_eq) simp
  have ok: "ok_path K p" using symlink by (simp add: ok_path_def)
  from symlinkFile_effect[OF assms(1) symlink(11)]
  obtain dest sg where "if cur = sg then same_step K p cur st st'
               else if cur = [] then
                 rec_step K p sg \<lparr>rMD = \<lparr>Path = p, Attribs = a\<rparr>, rKind = KindFull, rPayload = dest\<rparr> st st'
               else (\<exists>delta. GenDelta H cur dest (int (length dest)) = Inr delta
                 \<and> rec_step K p sg \<lparr>rMD = \<lparr>Path = p, Attribs = a\<rparr>, rKind = KindDelta, rPayload = delta\<rparr> st st')"
    by blast
  then show ?thesis using ok symlink(3,6) c
    unfolding entry_step_def by (fastforce split: if_splits)
next
  case (regular p a cur)
  have c: "cached K p = cur" using regular(7) by (rule cached_eq) simp
  have ok: "ok_path K p" using regular by (simp add: ok_path_def)
  from regularFile_effect[OF assms(1) regular(11)]
  consider (a) "st' = say StderrOpen st"
    | (b) content sg where "if cur = sg then same_step K p cur st st'
                 else if cur = [] then
                   rec_step K p sg \<lparr>rMD = \<lparr>Path = p, Attribs = a\<rparr>, rKind = KindFull, rPayload = content\<rparr> st st'
                 else (\<exists>delta. GenDelta H cur content (info_Size e) = Inr delta
                   \<and> rec_step K p sg \<lparr>rMD = \<lparr>Path = p, Attribs = a\<rparr>, rKind = KindDelta, rPayload = delta\<rparr> st st')"
    by blast
  then show ?thesis
  proof cases
    case a
    then show ?thesis by (simp add: entry_step_def no_effect_say)
  next
    case b
    then show ?thesis using ok regular(3,6) c
      unfolding entry_step_def by (fastforce split: if_splits)
  qed
qed (simp_all add: entry_step_def no_effect_say, simp_all add: no_effect_def)

lemma rec_paths_append:
  "snap_records n st' = snap_records n st @ [r] \<Longrightarrow>
   rec_paths n st' = (if rKind r \<noteq> KindTombstone then insert (Path (rMD r)) (rec_paths n st)
                      else rec_paths n st)"
  by (auto simp: rec_paths_def)

lemma rec_paths_same: "snap_records n st' = snap_records n st \<Longrightarrow> rec_paths n st' = rec_paths n st"
  by (simp add: rec_paths_def)

lemma inv_no_effect:
  assumes "inv K P0 st" "no_effect K st st'"
  shows "inv K P0 st'"
proof -
  have eqs: "snap_records (snapName K) st' = snap_records (snapName K) st"
    "sc_entries st' = sc_entries st" "pathsToCheck st' = pathsToCheck st"
    "unchanged st' = unchanged st"
    using assms(2) by (simp_all add: no_effect_def)
  have RP: "rec_paths (snapName K) st' = rec_paths (snapName K) st"
    using eqs(1) by (rule rec_paths_same)
  show ?thesis using assms(1) unfolding inv_def RP eqs .
qed

lemma invD:
  assumes "inv K P0 st"
  shows "fst ` set (sc_entries st) = rec_paths (snapName K) st \<union> unchanged st"
     "rec_paths (snapName K) st \<inter> unchanged st = {}"
     "distinct (map fst (sc_entries st))"
     "set (pathsToCheck st) = P0 - fst ` set (sc_entries st)"
     "\<forall>p \<in> fst ` set (sc_entries st). ok_path K p"
     "\<forall>r \<in> set (snap_records (snapName K) st). rKind r \<noteq> KindTombstone"
     "\<forall>p \<in> unchanged st. map_of (sc_entries st) p = Some (cached K p)"
  using assms unfolding inv_def by blast+

lemma inv_rec_step:
  assumes "inv K P0 st" "rec_step K p sg r st st'" "Path (rMD r) = p" "rKind r \<noteq> KindTombstone"
    "ok_path K p"
  shows "inv K P0 st'"
proof -
  from assms(2) have R: "snap_records (snapName K) st' = snap_records (snapName K) st @ [r]"
    and E: "sc_entries st' = sc_entries st @ [(p, sg)]"
    and new: "p \<notin> fst ` set (sc_entries st)"
    and P: "pathsToCheck st' = removeAll p (pathsToCheck st)"
    and U: "unchanged st' = unchanged st"
    by (simp_all add: rec_step_def)
  have RP: "rec_paths (snapName K) st' = insert p (rec_paths (snapName K) st)"
    using rec_paths_append[OF R] assms(3,4) by simp
  note i = invD[OF assms(1)]
  have pU: "p \<notin> unchanged st" using new i(1) by blast
  show ?thesis unfolding inv_def
  proof (intro conjI)
    show "fst ` set (sc_entries st') = rec_paths (snapName K) st' \<union> unchanged st'"
      using i(1) by (simp add: E RP U)
    show "rec_paths (snapName K) st' \<inter> unchanged st' = {}"
      using i(2) pU by (simp add: RP U)
    show "distinct (map fst (sc_entries st'))" using i(3) new by (simp add: E)
    show "set (pathsToCheck st') = P0 - fst ` set (sc_entries st')"
      using i(4) by (auto simp add: P E)
    show "\<forall>p \<in> fst ` set (sc_entries st'). ok_path K p" using i(5) assms(5) by (simp add: E)
    show "\<forall>r \<in> set (snap_records (snapName K) st'). rKind r \<noteq> KindTombstone"
      using i(6) assms(4) by (simp add: R)
    show "\<forall>p \<in> unchanged st'. map_of (sc_entries st') p = Some (cached K p)"
      using i(7) by (simp add: U E map_add_Some_iff)
  qed
qed

lemma inv_same_step:
  assumes "inv K P0 st" "same_step K p (cached K p) st st'" "ok_path K p"
  shows "inv K P0 st'"
proof -
  from assms(2) have R: "snap_records (snapName K) st' = snap_records (snapName K) st"
    and E: "sc_entries st' = sc_entries st @ [(p, cached K p)]"
    and new: "p \<notin> fst ` set (sc_entries st)"
    and P: "pathsToCheck st' = removeAll p (pathsToCheck st)"
    and U: "unchanged st' = insert p (unchanged st)"
    by (simp_all add: same_step_def)
  have RP: "rec_paths (snapName K) st' = rec_paths (snapName K) st"
    using R by (rule rec_paths_same)
  note i = invD[OF assms(1)]
  have pR: "p \<notin> rec_paths (snapName K) st" using new i(1) by blast
  have none: "map_of (sc_entries st) p = None"
    using new by (simp add: map_of_eq_None_iff)
  show ?thesis unfolding inv_def
  proof (intro conjI)
    show "fst ` set (sc_entries st') = rec_paths (snapName K) st' \<union> unchanged st'"
      using i(1) by (simp add: E RP U)
    show "rec_paths (snapName K) st' \<inter> unchanged st' = {}"
      using i(2) pR by (simp add: RP U)
    show "distinct (map fst (sc_entries st'))" using i(3) new by (simp add: E)
    show "set (pathsToCheck st') = P0 - fst ` set (sc_entries st')"
      using i(4) by (auto simp add: P E)
    show "\<forall>p \<in> fst ` set (sc_entries st'). ok_path K p" using i(5) assms(3) by (simp add: E)
    show "\<forall>r \<in> set (snap_records (snapName K) st'). rKind r \<noteq> KindTombstone"
      using i(6) by (simp add: R)
    show "\<forall>p \<in> unchanged st'. map_of (sc_entries st') p = Some (cached K p)"
      using i(7) none new by (simp add: U E map_add_Some_iff)
  qed
qed

lemma inv_entry_step:
  assumes "inv K P0 st" "entry_step K e st st'"
  shows "inv K P0 st'"
proof -
  consider (a) "no_effect K st st'"
    | (b) p a sg r where "ok_path K p" "rec_step K p sg r st st'"
        "rMD r = \<lparr>Path = p, Attribs = a\<rparr>" "rKind r \<noteq> KindTombstone"
    | (c) p where "ok_path K p" "same_step K p (cached K p) st st'"
    using assms(2) unfolding entry_step_def by blast
  then show ?thesis
  proof cases
    case a
    with assms(1) show ?thesis by (rule inv_no_effect)
  next
    case b
    have "Path (rMD r) = p" using b(3) by simp
    with assms(1) b show ?thesis by (intro inv_rec_step[of K P0 st p sg r st']) simp_all
  next
    case c
    with assms(1) show ?thesis by (intro inv_same_step[of K P0 st p st']) simp_all
  qed
qed

lemma walk_inv:
  assumes "wf K st" "inv K P0 st" "walk H K es st = (st', None)"
  shows "inv K P0 st'"
  using assms
proof (induction es arbitrary: st)
  case Nil
  then show ?case by simp
next
  case (Cons e es)
  obtain st1 r1 where w: "walkFn H K e st = (st1, r1)" by (cases "walkFn H K e st")
  with Cons.prems(3) have r1: "r1 = None" and rest: "walk H K es st1 = (st', None)"
    by (cases r1; simp)+
  have "wf K st1" using frame_wf[OF frame_walkFn[OF Cons.prems(1) w]] .
  moreover have "inv K P0 st1"
    using Cons.prems(2) walkFn_effect[OF Cons.prems(1) w[unfolded r1]] by (rule inv_entry_step)
  ultimately show ?case using rest by (rule Cons.IH)
qed

lemma frame_quiet: "frame K X st st' \<Longrightarrow> quiet K X st st'"
  unfolding frame_def quiet_def by blast

lemma quietI:
  assumes "map_of (files st') sigFile = map_of (files st) sigFile"
    and "events st' = events st @ evs" "\<forall>ev \<in> set evs. \<not> mutates sigFile ev"
    and "(\<forall>rnd. \<not> unremovable K (''delta'' @ rnd))
          \<Longrightarrow> dom (map_of (files st')) \<subseteq> dom (map_of (files st)) \<union> X"
  shows "quiet K X st st'"
  unfolding quiet_def using assms by blast

lemma quietE:
  assumes "quiet K X st st'"
  obtains evs where "map_of (files st') sigFile = map_of (files st) sigFile"
    and "events st' = events st @ evs" "\<forall>ev \<in> set evs. \<not> mutates sigFile ev"
    and "(\<forall>rnd. \<not> unremovable K (''delta'' @ rnd))
          \<longrightarrow> dom (map_of (files st')) \<subseteq> dom (map_of (files st)) \<union> X"
  using assms unfolding quiet_def by blast

lemma quiet_refl: "quiet K {} st st"
  by (simp add: quiet_def)

lemma quiet_trans:
  assumes "quiet K X a b" "quiet K Y b c"
  shows "quiet K (X \<union> Y) a c"
proof -
  from assms(1) obtain e1 where 1: "events b = events a @ e1" "\<forall>ev \<in> set e1. \<not> mutates sigFile ev"
    "map_of (files b) sigFile = map_of (files a) sigFile"
    "(\<forall>rnd. \<not> unremovable K (''delta'' @ rnd)) \<longrightarrow> dom (map_of (files b)) \<subseteq> dom (map_of (files a)) \<union> X"
    by (rule quietE)
  from assms(2) obtain e2 where 2: "events c = events b @ e2" "\<forall>ev \<in> set e2. \<not> mutates sigFile ev"
    "map_of (files c) sigFile = map_of (files b) sigFile"
    "(\<forall>rnd. \<not> unremovable K (''delta'' @ rnd)) \<longrightarrow> dom (map_of (files c)) \<subseteq> dom (map_of (files b)) \<union> Y"
    by (rule quietE)
  show ?thesis
  proof (rule quietI)
    show "events c = events a @ (e1 @ e2)" using 1 2 by simp
    show "\<forall>ev \<in> set (e1 @ e2). \<not> mutates sigFile ev" using 1 2 by auto
    show "map_of (files c) sigFile = map_of (files a) sigFile" using 1 2 by simp
    show "dom (map_of (files c)) \<subseteq> dom (map_of (files a)) \<union> (X \<union> Y)"
      if "\<forall>rnd. \<not> unremovable K (''delta'' @ rnd)"
      using that 1(4) 2(4) by blast
  qed
qed

lemma quiet_say: "quiet K X st st' \<Longrightarrow> quiet K X st (say m st')"
  by (simp add: quiet_def)

lemma quiet_mono: "quiet K X st st' \<Longrightarrow> X \<subseteq> Y \<Longrightarrow> quiet K Y st st'"
  unfolding quiet_def by blast

text \<open>Closing and removing the snapshot, as every failure after its creation does.\<close>

lemma snap_Close_fst:
  "fst (snap_Close n f st) = (if f then st else emit (EvClose n) st)"
  by (simp add: snap_Close_def)

lemma abandon_quiet:
  assumes "wf K st"
  shows "quiet K {} st (fst (os_Remove (unremovable K) (snapName K) (fst (snap_Close (snapName K) f st))))"
    (is "quiet K {} st ?st'")
proof -
  have ne: "snapName K \<noteq> sigFile" using assms by (simp add: wf_def)
  show ?thesis
    by (rule quietI[where evs = "(if f then [] else [EvClose (snapName K)]) @
          (if unremovable K (snapName K) then [] else [EvRemove (snapName K)])"])
       (use assms ne in \<open>auto simp: snap_Close_fst os_Remove_def wf_def delete_conv'\<close>)
qed

lemma abandon_gone:
  assumes "\<not> unremovable K (snapName K)"
  shows "map_of (files (fst (os_Remove (unremovable K) (snapName K) (fst (snap_Close (snapName K) f st)))))
           (snapName K) = None"
  using assms by (auto simp: snap_Close_fst os_Remove_def delete_conv')

lemma walkRoots_frame:
  assumes "wf K st" "walkRoots H K cf roots st = (st', None)"
  shows "frame K {} st st'"
  using assms
proof (induction roots arbitrary: st)
  case Nil
  then show ?case by (simp add: frame_refl)
next
  case (Cons root roots)
  obtain sourceDir es where root: "root = (sourceDir, es)" by (cases root)
  obtain st1 r1 where w: "walk H K es st = (st1, r1)" by (cases "walk H K es st")
  have r1: "r1 = None" and rest: "walkRoots H K cf roots st1 = (st', None)"
    using Cons.prems(2) root w by (cases r1; simp)+
  have f1: "frame K {} st st1" using Cons.prems(1) w by (rule frame_walk)
  have "frame K {} st1 st'" using frame_wf[OF f1] rest by (rule Cons.IH)
  with f1 show ?case by (rule frame_trans0)
qed

lemma walkRoots_failed:
  assumes "wf K st" "walkRoots H K cf roots st = (st', Some er)"
  shows "quiet K {} st st'
         \<and> (\<not> unremovable K (snapName K) \<longrightarrow> map_of (files st') (snapName K) = None)"
  using assms
proof (induction roots arbitrary: st)
  case Nil
  then show ?case by simp
next
  case (Cons root roots)
  obtain sourceDir es where root: "root = (sourceDir, es)" by (cases root)
  obtain st1 r1 where w: "walk H K es st = (st1, r1)" by (cases "walk H K es st")
  have f1: "frame K {} st st1" using Cons.prems(1) w by (rule frame_walk)
  show ?case
  proof (cases r1)
    case None
    then have rest: "walkRoots H K cf roots st1 = (st', Some er)"
      using Cons.prems(2) root w by simp
    have "quiet K {} st1 st'
         \<and> (\<not> unremovable K (snapName K) \<longrightarrow> map_of (files st') (snapName K) = None)"
      using frame_wf[OF f1] rest by (rule Cons.IH)
    then show ?thesis using quiet_trans[OF frame_quiet[OF f1], of "{}" st'] by simp
  next
    case (Some e1)
    then have st': "st' = fst (os_Remove (unremovable K) (snapName K)
                  (fst (snap_Close (snapName K) cf st1)))"
      using Cons.prems(2) root w by simp
    have "quiet K {} st1 st'" unfolding st' using frame_wf[OF f1] by (rule abandon_quiet)
    then have "quiet K {} st st'" using quiet_trans[OF frame_quiet[OF f1], of "{}" st'] by simp
    then show ?thesis using abandon_gone[of K cf st1] st' by simp
  qed
qed

lemma walkRoots_inv:
  assumes "wf K st" "inv K P0 st" "walkRoots H K cf roots st = (st', None)"
  shows "inv K P0 st'"
  using assms
proof (induction roots arbitrary: st)
  case Nil
  then show ?case by simp
next
  case (Cons root roots)
  obtain sourceDir es where root: "root = (sourceDir, es)" by (cases root)
  obtain st1 r1 where w: "walk H K es st = (st1, r1)" by (cases "walk H K es st")
  have r1: "r1 = None" and rest: "walkRoots H K cf roots st1 = (st', None)"
    using Cons.prems(3) root w by (cases r1; simp)+
  have f1: "frame K {} st st1" using Cons.prems(1) w by (rule frame_walk)
  have "inv K P0 st1" using Cons.prems(1,2) w[unfolded r1] by (rule walk_inv)
  with frame_wf[OF f1] show ?case using rest by (rule Cons.IH)
qed

lemma tombstones_ok:
  assumes "wf K st" "tombstones K cf fails ps st = (st', None)"
  shows "frame K {} st st'
     \<and> snap_records (snapName K) st' = snap_records (snapName K) st @ map tombstone ps
     \<and> sc_entries st' = sc_entries st \<and> unchanged st' = unchanged st"
  using assms
proof (induction ps arbitrary: st)
  case Nil
  then show ?case by (simp add: frame_refl)
next
  case (Cons p ps)
  obtain st1 r1 where a: "snap_Add (snapName K) (fails p) (tombstone p) (say (DebugDeleted p) st) = (st1, r1)"
    by (cases "snap_Add (snapName K) (fails p) (tombstone p) (say (DebugDeleted p) st)")
  have r1: "r1 = None" and rest: "tombstones K cf fails ps st1 = (st', None)"
    using Cons.prems(2) a by (cases r1; simp add: tombstone_def)+
  have wf1: "wf K (say (DebugDeleted p) st)" using Cons.prems(1) by simp
  have f1: "frame K {} st st1"
    using frame_snap_Add[OF wf1 a] by (rule frame_say_l)
  have sa: "snap_added K (tombstone p) st st1"
    using snap_Add_added[OF wf1 a[unfolded r1]] by (rule snap_added_say) simp
  have ih: "frame K {} st1 st'
     \<and> snap_records (snapName K) st' = snap_records (snapName K) st1 @ map tombstone ps
     \<and> sc_entries st' = sc_entries st1 \<and> unchanged st' = unchanged st1"
    using frame_wf[OF f1] rest by (rule Cons.IH)
  show ?case using ih sa f1 by (auto simp: snap_added_def intro: frame_trans0)
qed

lemma tombstones_failed:
  assumes "wf K st" "tombstones K cf fails ps st = (st', Some er)"
  shows "quiet K {} st st'
         \<and> (\<not> unremovable K (snapName K) \<longrightarrow> map_of (files st') (snapName K) = None)"
  using assms
proof (induction ps arbitrary: st)
  case Nil
  then show ?case by simp
next
  case (Cons p ps)
  obtain st1 r1 where a: "snap_Add (snapName K) (fails p) (tombstone p) (say (DebugDeleted p) st) = (st1, r1)"
    by (cases "snap_Add (snapName K) (fails p) (tombstone p) (say (DebugDeleted p) st)")
  have wf1: "wf K (say (DebugDeleted p) st)" using Cons.prems(1) by simp
  have f1: "frame K {} st st1"
    using frame_snap_Add[OF wf1 a] by (rule frame_say_l)
  show ?case
  proof (cases r1)
    case None
    then have rest: "tombstones K cf fails ps st1 = (st', Some er)"
      using Cons.prems(2) a by (simp add: tombstone_def)
    have "quiet K {} st1 st'
         \<and> (\<not> unremovable K (snapName K) \<longrightarrow> map_of (files st') (snapName K) = None)"
      using frame_wf[OF f1] rest by (rule Cons.IH)
    then show ?thesis using quiet_trans[OF frame_quiet[OF f1], of "{}" st'] by simp
  next
    case (Some e1)
    then have st': "st' = fst (os_Remove (unremovable K) (snapName K)
                  (fst (snap_Close (snapName K) cf st1)))"
      using Cons.prems(2) a by (simp add: tombstone_def)
    have "quiet K {} st1 st'" unfolding st' using frame_wf[OF f1] by (rule abandon_quiet)
    then have "quiet K {} st st'" using quiet_trans[OF frame_quiet[OF f1], of "{}" st'] by simp
    then show ?thesis using abandon_gone[of K cf st1] st' by simp
  qed
qed

lemma finalize_cases:
  assumes "finalize K env st = (st', res)"
  obtains (snap_close) "snap_close_fails env" "res = Some ErrSnapClose"
      "st' = fst (os_Remove (unremovable K) (snapName K) st)"
  | (stopped) er where "\<not> snap_close_fails env" "res = Some er"
      "st' = emit (EvClose (snapName K)) st
       \<or> st' = emit (EvClose inprogress) (emit (EvClose (snapName K)) st)"
  | (renamed) f where "\<not> snap_close_fails env" "\<not> sc_close_fails env" "res = None"
      "map_of (files st) inprogress = Some f"
      "st' = say InfoCompleted
               ((if sig_chown_fails env then say ErrChownSignature else emit (EvChown sigFile))
                  (emit (EvRename inprogress sigFile)
                    ((emit (EvClose inprogress) (emit (EvClose (snapName K)) st))
                      \<lparr>files := AList.update sigFile f (AList.delete inprogress (files st))\<rparr>)))"
proof (cases "snap_close_fails env")
  case True
  then show ?thesis using assms that(1) by (simp add: finalize_def snap_Close_def)
next
  case sc: False
  show ?thesis
  proof (cases "sc_close_fails env")
    case True
    then show ?thesis using assms sc that(2)
      by (auto simp add: finalize_def snap_Close_def sc_Close_def and_then_def)
  next
    case cc: False
    show ?thesis
    proof (cases "existing_close_fails env \<and> existingSC K \<noteq> None")
      case True
      then show ?thesis using assms sc cc that(2)
        by (auto simp add: finalize_def snap_Close_def sc_Close_def and_then_def)
    next
      case ec: False
      show ?thesis
      proof (cases "rename_fails env \<or> map_of (files st) inprogress = None")
        case True
        let ?st2 = "emit (EvClose inprogress) (emit (EvClose (snapName K)) st)"
        have "os_Rename (rename_fails env) inprogress sigFile ?st2 = (?st2, Some ErrRename)"
          using True by (auto simp: os_Rename_def)
        then have "st' = ?st2 \<and> res = Some ErrRename"
          using assms sc cc ec
          by (auto simp add: finalize_def snap_Close_def sc_Close_def and_then_def)
        then show ?thesis using sc that(2)[of ErrRename] by simp
      next
        case False
        then obtain f where f: "map_of (files st) inprogress = Some f" by auto
        let ?st2 = "emit (EvClose inprogress) (emit (EvClose (snapName K)) st)"
        have "os_Rename (rename_fails env) inprogress sigFile ?st2 =
               (emit (EvRename inprogress sigFile)
                  (?st2\<lparr>files := AList.update sigFile f (AList.delete inprogress (files st))\<rparr>), None)"
          using False f by (simp add: os_Rename_def)
        then have "st' = say InfoCompleted
               ((if sig_chown_fails env then say ErrChownSignature else emit (EvChown sigFile))
                  (emit (EvRename inprogress sigFile)
                    (?st2\<lparr>files := AList.update sigFile f (AList.delete inprogress (files st))\<rparr>)))
               \<and> res = None"
          using assms sc cc ec
          by (auto simp add: finalize_def snap_Close_def sc_Close_def and_then_def)
        then show ?thesis using sc cc f that(3)[of f] by simp
      qed
    qed
  qed
qed

lemma run_generation_cases:
  assumes "run_generation H cfg env K hdr st = (st', res)"
  defines "st1 \<equiv> st\<lparr>pathsToCheck := sc_Paths (existingSC K)\<rparr>"
  defines "st2 \<equiv> (if hdr_instance hdr = 0
                    then removeOld_loop (cannot_remove env) (DryRun cfg) (file_names st1) st1
                    else st1)"
  defines "st3 \<equiv> say (DebugRunningLevel (hdr_instance hdr) (hdr_timeStamp hdr)) st2"
  defines "st4 \<equiv> emit (EvCreate (snapName K)) (put_file (snapName K) (SnapFile hdr []) st3)"
  obtains (panic) "hdr_instance hdr = 0" "readdir_fails env" "res = Some ErrReadDir" "st' = st1"
  | (no_snapshot) "new_snapshot_fails env" "res = Some ErrNewSnapshot" "st' = st3"
  | (walk_failed) er where
      "walkRoots H K (snap_close_fails env) (Paths cfg) st4 = (st', Some er)" "res = Some er"
  | (deleting_failed) st5 er where
      "walkRoots H K (snap_close_fails env) (Paths cfg) st4 = (st5, None)"
      "tombstones K (snap_close_fails env) (tombstone_fails env) (pathsToCheck st5) st5
         = (st', Some er)" "res = Some er"
  | (finalized) st5 st6 where
      "walkRoots H K (snap_close_fails env) (Paths cfg) st4 = (st5, None)"
      "tombstones K (snap_close_fails env) (tombstone_fails env) (pathsToCheck st5) st5
         = (st6, None)"
      "finalize K env st6 = (st', res)"
proof (cases "hdr_instance hdr = 0 \<and> readdir_fails env")
  case True
  then show ?thesis using assms(1) that(1)
    by (auto simp: run_generation_def removeOld_def and_then_def st1_def)
next
  case False
  have first: "(if hdr_instance hdr = 0
        then removeOld (readdir_fails env) (cannot_remove env) (DryRun cfg) st1
        else (st1, None)) = (st2, None)"
    using False by (auto simp: removeOld_def st2_def)
  have eq1: "and_then (NewSnapshot (new_snapshot_fails env) (snapName K) hdr st3)
          (\<lambda>st2. and_then (walkRoots H K (snap_close_fails env) (Paths cfg) st2)
             (\<lambda>st3. and_then
                (tombstones K (snap_close_fails env) (tombstone_fails env) (pathsToCheck st3) st3)
                (finalize K env))) = (st', res)"
    using assms(1) first unfolding run_generation_def st1_def[symmetric] st3_def
    by (simp add: and_then_def)
  show ?thesis
  proof (cases "new_snapshot_fails env")
    case True
    then show ?thesis using eq1 that(2) by (auto simp: NewSnapshot_def and_then_def)
  next
    case False
    then have eq2: "and_then (walkRoots H K (snap_close_fails env) (Paths cfg) st4)
             (\<lambda>st3. and_then
                (tombstones K (snap_close_fails env) (tombstone_fails env) (pathsToCheck st3) st3)
                (finalize K env)) = (st', res)"
      using eq1 by (simp add: NewSnapshot_def and_then_def st4_def)
    from eq2 show ?thesis
    proof (cases rule: and_then_cases)
      case (go st5)
      from go(2) show ?thesis
      proof (cases rule: and_then_cases)
        case (go st6)
        then show ?thesis using \<open>walkRoots H K (snap_close_fails env) (Paths cfg) st4 = (st5, None)\<close>
          by (intro that(5)[of st5 st6]) simp_all
      next
        case (stop er)
        then show ?thesis using \<open>walkRoots H K (snap_close_fails env) (Paths cfg) st4 = (st5, None)\<close>
          by (intro that(4)[of st5 er]) simp_all
      qed
    next
      case (stop er)
      then show ?thesis by (intro that(3)[of er]) simp_all
    qed
  qed
qed

lemma backup_cases:
  assumes "backup H cfg env fs0 = (st', res)"
  defines "K \<equiv> run_closure cfg env fs0"
  obtains (prep) er where "res = Some er" "st' = initial_state fs0"
  | (no_cache) "res = Some ErrNewSignatureCache"
      "st' = snd (loadExisting (load_fails env) (initial_state fs0))"
  | (panic) "hdr_instance (run_header cfg env fs0) = 0" "readdir_fails env"
      "res = Some ErrReadDir" "st' = started cfg env fs0"
  | (no_snapshot) "res = Some ErrNewSnapshot"
      "st' = say (DebugRunningLevel (hdr_instance (run_header cfg env fs0))
                                  (hdr_timeStamp (run_header cfg env fs0))) (cleaned cfg env fs0)"
  | (walk_failed) er where
      "walkRoots H K (snap_close_fails env) (Paths cfg) (opened cfg env fs0) = (st', Some er)"
      "res = Some er"
  | (deleting_failed) st5 er where
      "walkRoots H K (snap_close_fails env) (Paths cfg) (opened cfg env fs0) = (st5, None)"
      "tombstones K (snap_close_fails env) (tombstone_fails env) (pathsToCheck st5) st5
         = (st', Some er)" "res = Some er"
  | (finalized) st5 st6 where
      "walkRoots H K (snap_close_fails env) (Paths cfg) (opened cfg env fs0) = (st5, None)"
      "tombstones K (snap_close_fails env) (tombstone_fails env) (pathsToCheck st5) st5
         = (st6, None)"
      "finalize K env st6 = (st', res)"
proof (cases "abs_destDir env")
  case (Inl er)
  then show ?thesis using assms(1) that(1)[of er] by (simp add: backup_def)
next
  case ab: (Inr dest)
  show ?thesis
  proof (cases "lookupGroup env")
    case (Inl er)
    then show ?thesis using assms(1) ab that(1)[of er] by (simp add: backup_def)
  next
    case lg: (Inr gid)
    show ?thesis
    proof (cases "mkdir_fails env \<or> chown_fails env")
      case True
      then show ?thesis using assms(1) ab lg that(1)
        by (cases "mkdir_fails env") (auto simp: backup_def)
    next
      case ok: False
      obtain ex st1 where le: "loadExisting (load_fails env) (initial_state fs0) = (ex, st1)"
        by (cases "loadExisting (load_fails env) (initial_state fs0)")
      have ex: "ex = loaded env fs0" using le by (simp add: loaded_def)
      have K: "make_closure cfg env dest ex = K"
        using ab ex by (simp add: K_def run_closure_def)
      have hdr: "new_header cfg env ex = run_header cfg env fs0"
        using ex by (simp add: run_header_def)
      let ?hdr = "run_header cfg env fs0"
      have eq: "and_then
                  (NewSignatureCache (new_cache_fails env) (hdr_hostname ?hdr) inprogress
                     (hdr_timeStamp ?hdr) (hdr_instance ?hdr) st1)
                  (run_generation H cfg env K ?hdr) = (st', res)"
        using assms(1) ab lg ok le by (simp add: backup_def Let_def K hdr)
      have hv: "hdr_version ?hdr = FormatVersion" "hdr_hostname ?hdr = os_hostname env"
        by (auto simp: run_header_def new_header_def split: option.splits)
      then have hdr_eq: "\<lparr>hdr_hostname = hdr_hostname ?hdr, hdr_timeStamp = hdr_timeStamp ?hdr,
                 hdr_instance = hdr_instance ?hdr, hdr_version = FormatVersion\<rparr> = ?hdr"
        by simp
      show ?thesis
      proof (cases "new_cache_fails env")
        case True
        then show ?thesis using eq le that(2) by (auto simp: NewSignatureCache_def and_then_def)
      next
        case False
        let ?st2 = "emit (EvCreate inprogress) (put_file inprogress (CacheFile ?hdr []) st1)"
        have rg: "run_generation H cfg env K ?hdr ?st2 = (st', res)"
          using eq False by (simp add: NewSignatureCache_def and_then_def hdr_eq)
        have st: "?st2\<lparr>pathsToCheck := sc_Paths (existingSC K)\<rparr> = started cfg env fs0"
          using le by (simp add: started_def K_def)
        have cl: "(if hdr_instance ?hdr = 0
                    then removeOld_loop (cannot_remove env) (DryRun cfg)
                           (file_names (started cfg env fs0)) (started cfg env fs0)
                    else started cfg env fs0) = cleaned cfg env fs0"
          by (simp add: cleaned_def)
        have op: "emit (EvCreate (snapName K)) (put_file (snapName K) (SnapFile ?hdr [])
                    (say (DebugRunningLevel (hdr_instance ?hdr) (hdr_timeStamp ?hdr))
                       (cleaned cfg env fs0))) = opened cfg env fs0"
          by (simp add: opened_def K_def)
        from rg show ?thesis
        proof (cases rule: run_generation_cases)
          case panic
          note f = panic[unfolded st]
          show ?thesis using that(3) f by blast
        next
          case no_snapshot
          note f = no_snapshot[unfolded st cl]
          show ?thesis using that(4) f by blast
        next
          case (walk_failed er)
          note f = walk_failed[unfolded st cl op]
          show ?thesis using that(5)[of er] f by blast
        next
          case (deleting_failed st5 er)
          note f = deleting_failed[unfolded st cl op]
          show ?thesis using that(6)[of st5 er] f by blast
        next
          case (finalized st5 st6)
          note f = finalized[unfolded st cl op]
          show ?thesis using that(7)[of st5 st6] f by blast
        qed
      qed
    qed
  qed
qed

lemma os_Remove_cases:
  assumes "os_Remove unr n st = (st', b)"
  obtains (removed) "b" "\<not> unr n" "map_of (files st) n \<noteq> None"
      "st' = emit (EvRemove n) (st\<lparr>files := AList.delete n (files st)\<rparr>)"
  | (kept) "\<not> b" "st' = st" "unr n \<or> map_of (files st) n = None"
proof (cases "unr n \<or> map_of (files st) n = None")
  case True
  then have "st' = st" "\<not> b" using assms by (auto simp: os_Remove_def)
  then show ?thesis using True that(2) by blast
next
  case False
  then have "st' = emit (EvRemove n) (st\<lparr>files := AList.delete n (files st)\<rparr>)" "b"
    using assms by (auto simp: os_Remove_def)
  then show ?thesis using False that(1) by blast
qed

lemma removeOld_loop_props:
  "removal unr dryRun names st (removeOld_loop unr dryRun names st)"
  unfolding removal_def
proof (induction names arbitrary: st)
  case Nil
  then show ?case by simp
next
  case (Cons name names)
  show ?case
  proof (cases "suffix ''.gz.enc'' name")
    case False
    then show ?thesis using Cons.IH[of st] by auto
  next
    case suf: True
    show ?thesis
    proof (cases dryRun)
      case True
      then show ?thesis using suf Cons.IH[of "say (DebugDeletingDryrun name) st"] by simp
    next
      case nd: False
      obtain st1 b where r: "os_Remove unr name (say (DebugDeleting name) st) = (st1, b)"
        by (cases "os_Remove unr name (say (DebugDeleting name) st)")
      define st2 where "st2 = (if b then st1 else say (ErrFailedDelete name) st1)"
      have eq: "removeOld_loop unr dryRun (name # names) st = removeOld_loop unr dryRun names st2"
        using suf nd r by (cases b) (simp_all add: st2_def)
      have step: "(\<exists>evs. events st2 = events st @ evs
                     \<and> (\<forall>ev \<in> set evs. \<exists>n. ev = EvRemove n \<and> suffix ''.gz.enc'' n))
           \<and> (\<forall>n. \<not> suffix ''.gz.enc'' n \<longrightarrow> map_of (files st2) n = map_of (files st) n)
           \<and> dom (map_of (files st2)) \<subseteq> dom (map_of (files st))
           \<and> pathsToCheck st2 = pathsToCheck st \<and> unchanged st2 = unchanged st
           \<and> (\<not> unr name \<longrightarrow> map_of (files st2) name = None)"
        using r
      proof (cases rule: os_Remove_cases)
        case removed
        have "events st2 = events st @ [EvRemove name]" using removed by (simp add: st2_def)
        then have "\<exists>evs. events st2 = events st @ evs
                     \<and> (\<forall>ev \<in> set evs. \<exists>n. ev = EvRemove n \<and> suffix ''.gz.enc'' n)"
          using suf by auto
        then show ?thesis using removed suf
          by (auto simp: st2_def delete_conv' unchanged_def)
      next
        case kept
        then show ?thesis by (auto simp: st2_def unchanged_def)
      qed
      note ih = Cons.IH[of st2]
      from step obtain e1 where e1: "events st2 = events st @ e1"
        "\<forall>ev \<in> set e1. \<exists>n. ev = EvRemove n \<and> suffix ''.gz.enc'' n" by blast
      from ih obtain e2 where e2: "events (removeOld_loop unr dryRun names st2) = events st2 @ e2"
        "\<forall>ev \<in> set e2. \<exists>n. ev = EvRemove n \<and> suffix ''.gz.enc'' n" by blast
      have ev: "\<exists>evs. events (removeOld_loop unr dryRun names st2) = events st @ evs
            \<and> (\<forall>ev \<in> set evs. \<exists>n. ev = EvRemove n \<and> suffix ''.gz.enc'' n)"
        by (rule exI[of _ "e1 @ e2"]) (use e1 e2 in auto)
      have gone: "\<not> unr name \<longrightarrow> map_of (files (removeOld_loop unr dryRun names st2)) name = None"
        using step ih by (meson domIff subsetD)
      show ?thesis unfolding eq using ev step ih gone nd
        by (simp del: removeOld_loop.simps) blast
    qed
  qed
qed

lemma not_suffix [simp]: "\<not> suffix ''.gz.enc'' sigFile" "\<not> suffix ''.gz.enc'' inprogress"
  by (simp_all add: sigFile_def inprogress_def suffix_to_prefix)

lemma snapName_suffix [simp]: "suffix ''.gz.enc'' (snapName (run_closure cfg env fs0))"
  by (simp add: run_closure_def make_closure_def snapshot_name_def suffix_def)

lemma snapName_neq [simp]:
  "snapName (run_closure cfg env fs0) \<noteq> sigFile"
  "snapName (run_closure cfg env fs0) \<noteq> inprogress"
  "sigFile \<noteq> snapName (run_closure cfg env fs0)"
  "inprogress \<noteq> snapName (run_closure cfg env fs0)"
  using snapName_suffix[of cfg env fs0] not_suffix by metis+

lemma run_closure_simps [simp]:
  "unremovable (run_closure cfg env fs0) = cannot_remove env"
  "rExcludes (run_closure cfg env fs0) = Excludes cfg"
  "existingSC (run_closure cfg env fs0) =
     (if fresh_generation cfg (loaded env fs0) then None else loaded env fs0)"
  by (simp_all add: run_closure_def make_closure_def run_header_def)

lemma snapName_run_closure:
  "snapName (run_closure cfg env fs0) = snapshot_name (snap_stem env) (run_header cfg env fs0)"
  by (simp add: run_closure_def make_closure_def run_header_def)

lemma loadExisting_snd:
  "files (snd (loadExisting f st)) = files st"
  "events (snd (loadExisting f st)) = events st"
  "unchanged (snd (loadExisting f st)) = unchanged st"
  by (auto simp: loadExisting_def unchanged_def split: sum.splits)

lemma started_simps:
  "map_of (files (started cfg env fs0)) = (map_of fs0)(inprogress \<mapsto> CacheFile (run_header cfg env fs0) [])"
  "events (started cfg env fs0) = [EvCreate inprogress]"
  "pathsToCheck (started cfg env fs0) = sc_Paths (existingSC (run_closure cfg env fs0))"
  "unchanged (started cfg env fs0) = {}"
  by (simp_all add: started_def loadExisting_snd initial_state_def unchanged_def del: run_closure_simps)
     (auto simp: loadExisting_def initial_state_def split: sum.splits)

lemma cleaned_removal:
  "removal (cannot_remove env) (DryRun cfg \<or> hdr_instance (run_header cfg env fs0) \<noteq> 0)
     (file_names (started cfg env fs0)) (started cfg env fs0) (cleaned cfg env fs0)"
proof (cases "hdr_instance (run_header cfg env fs0) = 0")
  case True
  then show ?thesis
    using removeOld_loop_props[of "cannot_remove env" "DryRun cfg"
            "file_names (started cfg env fs0)" "started cfg env fs0"]
    by (simp add: cleaned_def)
next
  case False
  then show ?thesis by (simp add: cleaned_def removal_def)
qed

lemma removalE:
  assumes "removal unr dryRun names st st'"
  obtains evs where "events st' = events st @ evs"
      "\<forall>ev \<in> set evs. \<exists>n. ev = EvRemove n \<and> suffix ''.gz.enc'' n"
      "\<forall>n. \<not> suffix ''.gz.enc'' n \<longrightarrow> map_of (files st') n = map_of (files st) n"
      "dom (map_of (files st')) \<subseteq> dom (map_of (files st))"
      "pathsToCheck st' = pathsToCheck st" "unchanged st' = unchanged st"
      "\<not> dryRun \<longrightarrow> (\<forall>n \<in> set names. suffix ''.gz.enc'' n \<and> \<not> unr n
                          \<longrightarrow> map_of (files st') n = None)"
      "dryRun \<longrightarrow> files st' = files st"
  using assms unfolding removal_def by blast

lemma opened_simps:
  "map_of (files (opened cfg env fs0)) =
     (map_of (files (cleaned cfg env fs0)))
       (snapName (run_closure cfg env fs0) \<mapsto> SnapFile (run_header cfg env fs0) [])"
  "events (opened cfg env fs0) =
     events (cleaned cfg env fs0) @ [EvCreate (snapName (run_closure cfg env fs0))]"
  "pathsToCheck (opened cfg env fs0) = pathsToCheck (cleaned cfg env fs0)"
  "unchanged (opened cfg env fs0) = unchanged (cleaned cfg env fs0)"
  by (simp_all add: opened_def)

lemma opened_wf: "wf (run_closure cfg env fs0) (opened cfg env fs0)"
proof -
  from cleaned_removal[of env cfg fs0]
  have "map_of (files (cleaned cfg env fs0)) inprogress = map_of (files (started cfg env fs0)) inprogress"
    by (rule removalE) simp
  then show ?thesis
    unfolding wf_def by (simp add: opened_simps started_simps)
qed

lemma opened_inv:
  "inv (run_closure cfg env fs0) (set (sc_Paths (existingSC (run_closure cfg env fs0))))
     (opened cfg env fs0)"
proof -
  let ?K = "run_closure cfg env fs0"
  from cleaned_removal[of env cfg fs0]
  have c: "map_of (files (cleaned cfg env fs0)) inprogress = map_of (files (started cfg env fs0)) inprogress"
    "pathsToCheck (cleaned cfg env fs0) = pathsToCheck (started cfg env fs0)"
    "unchanged (cleaned cfg env fs0) = unchanged (started cfg env fs0)"
    by (rule removalE; simp)+
  have E: "sc_entries (opened cfg env fs0) = []"
    using c(1) by (simp add: sc_entries_def opened_simps started_simps)
  have R: "snap_records (snapName ?K) (opened cfg env fs0) = []"
    by (simp add: snap_records_def opened_simps)
  have U: "unchanged (opened cfg env fs0) = {}"
    using c(3) by (simp add: opened_simps started_simps)
  have P: "pathsToCheck (opened cfg env fs0) = sc_Paths (existingSC ?K)"
    using c(2) by (simp add: opened_simps started_simps)
  show ?thesis unfolding inv_def rec_paths_def E R U P by simp
qed

lemma opened_quiet:
  "quiet (run_closure cfg env fs0) {inprogress, snapName (run_closure cfg env fs0)}
     (initial_state fs0) (opened cfg env fs0)"
proof -
  let ?K = "run_closure cfg env fs0"
  from cleaned_removal[of env cfg fs0]
  obtain evs where c: "events (cleaned cfg env fs0) = events (started cfg env fs0) @ evs"
      "\<forall>ev \<in> set evs. \<exists>n. ev = EvRemove n \<and> suffix ''.gz.enc'' n"
      "\<forall>n. \<not> suffix ''.gz.enc'' n \<longrightarrow>
           map_of (files (cleaned cfg env fs0)) n = map_of (files (started cfg env fs0)) n"
      "dom (map_of (files (cleaned cfg env fs0))) \<subseteq> dom (map_of (files (started cfg env fs0)))"
    by (rule removalE)
  have nm: "\<forall>ev \<in> set evs. \<not> mutates sigFile ev" using c(2) by fastforce
  show ?thesis
  proof (rule quietI[where evs = "[EvCreate inprogress] @ evs @ [EvCreate (snapName ?K)]"])
    show "map_of (files (opened cfg env fs0)) sigFile = map_of (files (initial_state fs0)) sigFile"
      using c(3) by (simp add: opened_simps started_simps initial_state_def)
    show "events (opened cfg env fs0) =
            events (initial_state fs0) @ [EvCreate inprogress] @ evs @ [EvCreate (snapName ?K)]"
      using c(1) by (simp add: opened_simps started_simps initial_state_def)
    show "\<forall>ev\<in>set ([EvCreate inprogress] @ evs @ [EvCreate (snapName ?K)]). \<not> mutates sigFile ev"
      using nm by (simp)
    show "dom (map_of (files (opened cfg env fs0)))
            \<subseteq> dom (map_of (files (initial_state fs0))) \<union> {inprogress, snapName ?K}"
      using c(4) by (auto simp add: opened_simps started_simps initial_state_def)
  qed
qed

lemma backup_success:
  assumes "backup H cfg env fs0 = (st', None)"
  obtains st5 h where
    "walkRoots H (run_closure cfg env fs0) (snap_close_fails env) (Paths cfg) (opened cfg env fs0)
       = (st5, None)"
    "wf (run_closure cfg env fs0) st5"
    "inv (run_closure cfg env fs0) (set (sc_Paths (existingSC (run_closure cfg env fs0)))) st5"
    "map_of (files st') sigFile = Some (CacheFile h (sc_entries st5))"
    "snap_records (snapName (run_closure cfg env fs0)) st'
       = snap_records (snapName (run_closure cfg env fs0)) st5 @ map tombstone (pathsToCheck st5)"
    "unchanged st' = unchanged st5"
  using assms
proof (cases rule: backup_cases)
  case (finalized st5 st6)
  let ?K = "run_closure cfg env fs0"
  have f5: "frame ?K {} (opened cfg env fs0) st5"
    using opened_wf finalized(1) by (rule walkRoots_frame)
  have i5: "inv ?K (set (sc_Paths (existingSC ?K))) st5"
    using opened_wf opened_inv finalized(1) by (rule walkRoots_inv)
  note t = tombstones_ok[OF frame_wf[OF f5] finalized(2)]
  have wf6: "wf ?K st6" using t by (auto intro: frame_wf)
  from finalized(3) show ?thesis
  proof (cases rule: finalize_cases)
    case (renamed f)
    from wf6 obtain h es where h: "map_of (files st6) inprogress = Some (CacheFile h es)"
      unfolding wf_def by blast
    have es: "es = sc_entries st5" using h t by (simp add: sc_entries_def)
    have f: "f = CacheFile h (sc_entries st5)" using h renamed(4) es by simp
    have a: "map_of (files st') sigFile = Some (CacheFile h (sc_entries st5))"
      using renamed(5) f by (cases "sig_chown_fails env") (simp_all add: update_conv')
    have b: "snap_records (snapName ?K) st' = snap_records (snapName ?K) st6"
      using renamed(5)
      by (cases "sig_chown_fails env") (simp_all add: snap_records_def update_conv' delete_conv')
    have c: "unchanged st' = unchanged st6"
      using renamed(5) by (cases "sig_chown_fails env") (simp_all add: unchanged_def)
    show ?thesis
      using that[of st5 h] finalized(1) frame_wf[OF f5] i5 a b c t by simp
  qed simp_all
qed simp_all

lemma rec_paths_tombstones:
  "snap_records n st' = snap_records n st @ map tombstone ps \<Longrightarrow> rec_paths n st' = rec_paths n st"
  by (auto simp: rec_paths_def tombstone_def)

lemma cleaned_quiet:
  "quiet (run_closure cfg env fs0) {inprogress} (initial_state fs0) (cleaned cfg env fs0)"
proof -
  let ?K = "run_closure cfg env fs0"
  from cleaned_removal[of env cfg fs0]
  obtain evs where c: "events (cleaned cfg env fs0) = events (started cfg env fs0) @ evs"
      "\<forall>ev \<in> set evs. \<exists>n. ev = EvRemove n \<and> suffix ''.gz.enc'' n"
      "\<forall>n. \<not> suffix ''.gz.enc'' n \<longrightarrow>
           map_of (files (cleaned cfg env fs0)) n = map_of (files (started cfg env fs0)) n"
      "dom (map_of (files (cleaned cfg env fs0))) \<subseteq> dom (map_of (files (started cfg env fs0)))"
    by (rule removalE)
  have nm: "\<forall>ev \<in> set evs. \<not> mutates sigFile ev" using c(2) by fastforce
  show ?thesis
  proof (rule quietI[where evs = "[EvCreate inprogress] @ evs"])
    show "map_of (files (cleaned cfg env fs0)) sigFile = map_of (files (initial_state fs0)) sigFile"
      using c(3) by (simp add: started_simps initial_state_def)
    show "events (cleaned cfg env fs0) = events (initial_state fs0) @ [EvCreate inprogress] @ evs"
      using c(1) by (simp add: started_simps initial_state_def)
    show "\<forall>ev\<in>set ([EvCreate inprogress] @ evs). \<not> mutates sigFile ev"
      using nm by simp
    show "dom (map_of (files (cleaned cfg env fs0)))
            \<subseteq> dom (map_of (files (initial_state fs0))) \<union> {inprogress}"
      using c(4) by (auto simp add: started_simps initial_state_def)
  qed
qed

lemma started_quiet:
  "quiet (run_closure cfg env fs0) {inprogress} (initial_state fs0) (started cfg env fs0)"
  by (rule quietI[where evs = "[EvCreate inprogress]"])
     (auto simp: started_simps initial_state_def)

lemma loaded_quiet:
  "quiet K {} (initial_state fs0) (snd (loadExisting f (initial_state fs0)))"
  by (rule quietI[where evs = "[]"]) (simp_all add: loadExisting_snd)

lemma finalize_failed:
  assumes "wf K st" "finalize K env st = (st', Some er)"
  shows "quiet K {} st st'"
  using assms(2)
proof (cases rule: finalize_cases)
  case snap_close
  then show ?thesis using abandon_quiet[OF assms(1), of True] by (simp add: snap_Close_fst)
next
  case (stopped er)
  from stopped(3) show ?thesis
  proof
    assume "st' = emit (EvClose (snapName K)) st"
    then show ?thesis by (intro quietI[where evs = "[EvClose (snapName K)]"]) simp_all
  next
    assume "st' = emit (EvClose inprogress) (emit (EvClose (snapName K)) st)"
    then show ?thesis
      by (intro quietI[where evs = "[EvClose (snapName K), EvClose inprogress]"]) simp_all
  qed
qed simp

text \<open>Every run that fails leaves \<open>sig.cache\<close> as it was and logs no mutation of it.\<close>

lemma backup_failed_quiet:
  assumes "backup H cfg env fs0 = (st', Some er)"
  shows "quiet (run_closure cfg env fs0) {inprogress, snapName (run_closure cfg env fs0)}
           (initial_state fs0) st'"
  using assms
proof (cases rule: backup_cases)
  case (prep er)
  then show ?thesis by (simp add: quiet_mono[OF quiet_refl])
next
  case no_cache
  then show ?thesis by (simp add: quiet_mono[OF loaded_quiet])
next
  case panic
  then show ?thesis by (simp add: quiet_mono[OF started_quiet])
next
  case no_snapshot
  then show ?thesis by (simp add: quiet_mono[OF quiet_say[OF cleaned_quiet]])
next
  case (walk_failed e1)
  have "quiet (run_closure cfg env fs0) {} (opened cfg env fs0) st'"
    using walkRoots_failed[OF opened_wf walk_failed(1)] by simp
  then show ?thesis using quiet_trans[OF opened_quiet] by fastforce
next
  case (deleting_failed st5 e1)
  have f5: "frame (run_closure cfg env fs0) {} (opened cfg env fs0) st5"
    using opened_wf deleting_failed(1) by (rule walkRoots_frame)
  have "quiet (run_closure cfg env fs0) {} st5 st'"
    using tombstones_failed[OF frame_wf[OF f5] deleting_failed(2)] by simp
  then have "quiet (run_closure cfg env fs0) {} (opened cfg env fs0) st'"
    using quiet_trans[OF frame_quiet[OF f5]] by fastforce
  then show ?thesis using quiet_trans[OF opened_quiet] by fastforce
next
  case (finalized st5 st6)
  have f5: "frame (run_closure cfg env fs0) {} (opened cfg env fs0) st5"
    using opened_wf finalized(1) by (rule walkRoots_frame)
  have f6: "frame (run_closure cfg env fs0) {} st5 st6"
    using tombstones_ok[OF frame_wf[OF f5] finalized(2)] by simp
  have "quiet (run_closure cfg env fs0) {} st6 st'"
    using frame_wf[OF f6] finalized(3) by (rule finalize_failed)
  then have "quiet (run_closure cfg env fs0) {} st5 st'"
    using quiet_trans[OF frame_quiet[OF f6]] by fastforce
  then have "quiet (run_closure cfg env fs0) {} (opened cfg env fs0) st'"
    using quiet_trans[OF frame_quiet[OF f5]] by fastforce
  then show ?thesis using quiet_trans[OF opened_quiet] by fastforce
qed

text \<open>The state in which a successful run begins to finalize.\<close>

lemma backup_finalized:
  assumes "backup H cfg env fs0 = (st', None)"
  obtains st6 f where
    "quiet (run_closure cfg env fs0) {inprogress, snapName (run_closure cfg env fs0)}
       (initial_state fs0) st6"
    "map_of (files st6) inprogress = Some f"
    "\<not> snap_close_fails env" "\<not> sc_close_fails env"
    "st' = say InfoCompleted
               ((if sig_chown_fails env then say ErrChownSignature else emit (EvChown sigFile))
                  (emit (EvRename inprogress sigFile)
                    ((emit (EvClose inprogress)
                        (emit (EvClose (snapName (run_closure cfg env fs0))) st6))
                      \<lparr>files := AList.update sigFile f (AList.delete inprogress (files st6))\<rparr>)))"
  using assms
proof (cases rule: backup_cases)
  case (finalized st5 st6)
  have f5: "frame (run_closure cfg env fs0) {} (opened cfg env fs0) st5"
    using opened_wf finalized(1) by (rule walkRoots_frame)
  have f6: "frame (run_closure cfg env fs0) {} st5 st6"
    using tombstones_ok[OF frame_wf[OF f5] finalized(2)] by simp
  have "quiet (run_closure cfg env fs0) {} (opened cfg env fs0) st6"
    using quiet_trans[OF frame_quiet[OF f5] frame_quiet[OF f6]] by simp
  then have q: "quiet (run_closure cfg env fs0) {inprogress, snapName (run_closure cfg env fs0)}
       (initial_state fs0) st6"
    using quiet_trans[OF opened_quiet] by fastforce
  from finalized(3) show ?thesis
  proof (cases rule: finalize_cases)
    case (renamed f)
    then show ?thesis using that[of st6 f] q by blast
  qed simp_all
qed simp_all

lemma walk_cancelled:
  assumes "e \<in> set es" "ctx_Err e" "\<not> walk_err e" "walk H K es st = (st', res)"
  shows "res \<noteq> None"
  using assms(1,4)
proof (induction es arbitrary: st)
  case Nil
  then show ?case by simp
next
  case (Cons x xs)
  obtain st1 r1 where w: "walkFn H K x st = (st1, r1)" by (cases "walkFn H K x st")
  show ?case
  proof (cases r1)
    case (Some er)
    then show ?thesis using Cons.prems(2) w by auto
  next
    case None
    have "x \<noteq> e" using w None assms(2,3) by (auto simp: walkFn_def)
    then have "e \<in> set xs" using Cons.prems(1) by simp
    moreover have "walk H K xs st1 = (st', res)" using Cons.prems(2) w None by simp
    ultimately show ?thesis by (rule Cons.IH)
  qed
qed

lemma walkRoots_cancelled:
  assumes "(root, es) \<in> set roots" "e \<in> set es" "ctx_Err e" "\<not> walk_err e"
    "walkRoots H K cf roots st = (st', res)"
  shows "res \<noteq> None"
  using assms(1,5)
proof (induction roots arbitrary: st)
  case Nil
  then show ?case by simp
next
  case (Cons x xs)
  obtain d ys where x: "x = (d, ys)" by (cases x)
  obtain st1 r1 where w: "walk H K ys st = (st1, r1)" by (cases "walk H K ys st")
  show ?case
  proof (cases r1)
    case (Some er)
    then show ?thesis using Cons.prems(2) w x by auto
  next
    case None
    have "x \<noteq> (root, es)" using walk_cancelled[OF assms(2,3,4), of H K st st1 r1] w None x by auto
    then have "(root, es) \<in> set xs" using Cons.prems(1) by simp
    moreover have "walkRoots H K cf xs st1 = (st', res)" using Cons.prems(2) w None x by simp
    ultimately show ?thesis by (rule Cons.IH)
  qed
qed

lemma abandon_events:
  assumes "wf K st" "\<not> unremovable K (snapName K)"
  shows "events (fst (os_Remove (unremovable K) (snapName K) (fst (snap_Close (snapName K) f st))))
           = events st @ (if f then [] else [EvClose (snapName K)]) @ [EvRemove (snapName K)]"
  using assms by (auto simp: snap_Close_fst os_Remove_def wf_def)

lemma walkRoots_failed_events:
  assumes "wf K st" "walkRoots H K cf roots st = (st', Some er)" "\<not> unremovable K (snapName K)"
  shows "\<exists>pre. events st' = pre @ (if cf then [] else [EvClose (snapName K)]) @ [EvRemove (snapName K)]"
  using assms(1,2)
proof (induction roots arbitrary: st)
  case Nil
  then show ?case by simp
next
  case (Cons root roots)
  obtain sourceDir es where root: "root = (sourceDir, es)" by (cases root)
  obtain st1 r1 where w: "walk H K es st = (st1, r1)" by (cases "walk H K es st")
  have f1: "frame K {} st st1" using Cons.prems(1) w by (rule frame_walk)
  show ?case
  proof (cases r1)
    case None
    then have rest: "walkRoots H K cf roots st1 = (st', Some er)"
      using Cons.prems(2) root w by simp
    show ?thesis using frame_wf[OF f1] rest by (rule Cons.IH)
  next
    case (Some e1)
    then have st': "st' = fst (os_Remove (unremovable K) (snapName K)
                  (fst (snap_Close (snapName K) cf st1)))"
      using Cons.prems(2) root w by simp
    show ?thesis unfolding st' abandon_events[OF frame_wf[OF f1] assms(3)] by blast
  qed
qed

lemma cleaned_events:
  "EvCreate (snapName (run_closure cfg env fs0)) \<notin> set (events (cleaned cfg env fs0))"
proof -
  from cleaned_removal[of env cfg fs0]
  obtain evs where c: "events (cleaned cfg env fs0) = events (started cfg env fs0) @ evs"
      "\<forall>ev \<in> set evs. \<exists>n. ev = EvRemove n \<and> suffix ''.gz.enc'' n"
    by (rule removalE)
  have "EvCreate (snapName (run_closure cfg env fs0)) \<notin> set evs" using c(2) by blast
  then show ?thesis using c(1) by (simp add: started_simps)
qed

lemma walkFn_regular:
  assumes "reaches_switch H K e p a cur" "\<not> is_special H a" "\<not> isSymlink H (Mode a)"
  shows "walkFn H K e st = regularFile H K e \<lparr>Path = p, Attribs = a\<rparr> p cur st"
  using assms by (simp add: reaches_switch_def is_special_def walkFn_def NewMetadata_def Let_def)

lemma walkFn_symlink:
  assumes "reaches_switch H K e p a cur" "\<not> is_special H a" "isSymlink H (Mode a)"
  shows "walkFn H K e st = symlinkFile H K e \<lparr>Path = p, Attribs = a\<rparr> p cur st"
  using assms by (simp add: reaches_switch_def is_special_def walkFn_def NewMetadata_def Let_def)

lemma entry_step_unchanged_mono: "entry_step K e st st' \<Longrightarrow> unchanged st \<subseteq> unchanged st'"
  unfolding entry_step_def no_effect_def rec_step_def same_step_def by auto

lemma walk_unchanged_mono:
  assumes "wf K st" "walk H K es st = (st', None)"
  shows "unchanged st \<subseteq> unchanged st'"
  using assms
proof (induction es arbitrary: st)
  case Nil
  then show ?case by simp
next
  case (Cons e es)
  obtain st1 r1 where w: "walkFn H K e st = (st1, r1)" by (cases "walkFn H K e st")
  with Cons.prems(2) have r1: "r1 = None" and rest: "walk H K es st1 = (st', None)"
    by (cases r1; simp)+
  have "wf K st1" using frame_wf[OF frame_walkFn[OF Cons.prems(1) w]] .
  then have "unchanged st1 \<subseteq> unchanged st'" using rest by (rule Cons.IH)
  moreover have "unchanged st \<subseteq> unchanged st1"
    using walkFn_effect[OF Cons.prems(1) w[unfolded r1]] by (rule entry_step_unchanged_mono)
  ultimately show ?case by simp
qed

lemma walkRoots_unchanged_mono:
  assumes "wf K st" "walkRoots H K cf roots st = (st', None)"
  shows "unchanged st \<subseteq> unchanged st'"
  using assms
proof (induction roots arbitrary: st)
  case Nil
  then show ?case by simp
next
  case (Cons root roots)
  obtain sourceDir es where root: "root = (sourceDir, es)" by (cases root)
  obtain st1 r1 where w: "walk H K es st = (st1, r1)" by (cases "walk H K es st")
  have r1: "r1 = None" and rest: "walkRoots H K cf roots st1 = (st', None)"
    using Cons.prems(2) root w by (cases r1; simp)+
  have f1: "frame K {} st st1" using Cons.prems(1) w by (rule frame_walk)
  have "unchanged st1 \<subseteq> unchanged st'" using frame_wf[OF f1] rest by (rule Cons.IH)
  moreover have "unchanged st \<subseteq> unchanged st1"
    using Cons.prems(1) w[unfolded r1] by (rule walk_unchanged_mono)
  ultimately show ?case by simp
qed

text \<open>A regular file found unchanged by a walk that succeeds is logged as unchanged.\<close>

lemma regular_unchanged_logged:
  assumes "regular_entry H K e p a cur content cur" "walkFn H K e st = (st', None)"
  shows "p \<in> unchanged st'"
proof -
  have "regularFile H K e \<lparr>Path = p, Attribs = a\<rparr> p cur st = (st', None)"
    using assms walkFn_regular[of H K e p a cur st] by (simp add: regular_entry_def)
  then have "cache_only e p cur st = (st', None)"
    using assms(1) by (simp add: regular_entry_def regularFile_def)
  then have "same_step K p cur st st'" by (rule cache_only_effect)
  then show ?thesis by (simp add: same_step_def)
qed

lemma walk_unchanged_logged:
  assumes "wf K st" "walk H K es st = (st', None)" "e \<in> set es"
    "regular_entry H K e p a cur content cur"
  shows "p \<in> unchanged st'"
  using assms(1,2,3)
proof (induction es arbitrary: st)
  case Nil
  then show ?case by simp
next
  case (Cons x xs)
  obtain st1 r1 where w: "walkFn H K x st = (st1, r1)" by (cases "walkFn H K x st")
  with Cons.prems(2) have r1: "r1 = None" and rest: "walk H K xs st1 = (st', None)"
    by (cases r1; simp)+
  have wf1: "wf K st1" using frame_wf[OF frame_walkFn[OF Cons.prems(1) w]] .
  show ?case
  proof (cases "x = e")
    case True
    have "p \<in> unchanged st1" using assms(4) w[unfolded r1 True] by (rule regular_unchanged_logged)
    then show ?thesis using walk_unchanged_mono[OF wf1 rest] by blast
  next
    case False
    then have "e \<in> set xs" using Cons.prems(3) by simp
    with wf1 rest show ?thesis by (rule Cons.IH)
  qed
qed

lemma walkRoots_unchanged_logged:
  assumes "wf K st" "walkRoots H K cf roots st = (st', None)" "(root, es) \<in> set roots"
    "e \<in> set es" "regular_entry H K e p a cur content cur"
  shows "p \<in> unchanged st'"
  using assms(1,2,3)
proof (induction roots arbitrary: st)
  case Nil
  then show ?case by simp
next
  case (Cons x xs)
  obtain d ys where x: "x = (d, ys)" by (cases x)
  obtain st1 r1 where w: "walk H K ys st = (st1, r1)" by (cases "walk H K ys st")
  have r1: "r1 = None" and rest: "walkRoots H K cf xs st1 = (st', None)"
    using Cons.prems(2) x w by (cases r1; simp)+
  have f1: "frame K {} st st1" using Cons.prems(1) w by (rule frame_walk)
  show ?case
  proof (cases "x = (root, es)")
    case True
    then have "walk H K es st = (st1, None)" using w x r1 by simp
    then have "p \<in> unchanged st1"
      using walk_unchanged_logged[OF Cons.prems(1) _ assms(4,5)] by blast
    then show ?thesis using walkRoots_unchanged_mono[OF frame_wf[OF f1] rest] by blast
  next
    case False
    then have "(root, es) \<in> set xs" using Cons.prems(3) by simp
    with frame_wf[OF f1] rest show ?thesis by (rule Cons.IH)
  qed
qed

lemma rec_paths_member:
  "r \<in> set (snap_records n st) \<Longrightarrow> rKind r \<noteq> KindTombstone \<Longrightarrow> Path (rMD r) \<in> rec_paths n st"
  unfolding rec_paths_def by blast

lemma tombstone_simps [simp]:
  "Path (rMD (tombstone p)) = p" "rKind (tombstone p) = KindTombstone"
  "tombstone p = tombstone q \<longleftrightarrow> p = q"
  by (auto simp: tombstone_def)

text \<open>A path the callback skips before the switch, in a run that succeeds.\<close>

lemma skipped_path:
  assumes "backup H cfg env fs0 = (st', None)" "\<not> ok_path (run_closure cfg env fs0) p"
  shows "(\<forall>r \<in> set (snap_records (snapName (run_closure cfg env fs0)) st').
            Path (rMD r) = p \<longrightarrow> r = tombstone p)
       \<and> (\<forall>h es. map_of (files st') sigFile = Some (CacheFile h es) \<longrightarrow> p \<notin> fst ` set es)
       \<and> (tombstone p \<in> set (snap_records (snapName (run_closure cfg env fs0)) st')
            \<longleftrightarrow> p \<in> set (sc_Paths (existingSC (run_closure cfg env fs0))))"
  using assms(1)
proof (cases rule: backup_success)
  case (1 st5 h)
  let ?K = "run_closure cfg env fs0"
  note i = invD[OF 1(3)]
  have notE: "p \<notin> fst ` set (sc_entries st5)" using i(5) assms(2) by blast
  have a: "\<forall>r \<in> set (snap_records (snapName ?K) st'). Path (rMD r) = p \<longrightarrow> r = tombstone p"
  proof (intro ballI impI)
    fix r assume r: "r \<in> set (snap_records (snapName ?K) st')" "Path (rMD r) = p"
    show "r = tombstone p"
    proof (cases "r \<in> set (snap_records (snapName ?K) st5)")
      case True
      then have "Path (rMD r) \<in> rec_paths (snapName ?K) st5"
        using i(6) by (intro rec_paths_member) auto
      then show ?thesis using i(1) notE r(2) by blast
    next
      case False
      then have "r \<in> tombstone ` set (pathsToCheck st5)" using r(1) 1(5) by simp
      then show ?thesis using r(2) by auto
    qed
  qed
  have b: "\<forall>h es. map_of (files st') sigFile = Some (CacheFile h es) \<longrightarrow> p \<notin> fst ` set es"
    using 1(4) notE by simp
  have "tombstone p \<notin> set (snap_records (snapName ?K) st5)" using i(6) by auto
  then have "tombstone p \<in> set (snap_records (snapName ?K) st') \<longleftrightarrow> p \<in> set (pathsToCheck st5)"
    using 1(5) by auto
  then have c: "tombstone p \<in> set (snap_records (snapName ?K) st')
            \<longleftrightarrow> p \<in> set (sc_Paths (existingSC ?K))"
    using i(4) notE by blast
  show ?thesis using a b c by blast
qed

lemma destDirAbs_run_closure:
  "abs_destDir env = Inr dest \<Longrightarrow> destDirAbs (run_closure cfg env fs0) = dest"
  by (simp add: run_closure_def make_closure_def)

lemma frame_dom:
  "frame K X st st' \<Longrightarrow> \<forall>rnd. \<not> unremovable K (''delta'' @ rnd)
     \<Longrightarrow> dom (map_of (files st')) \<subseteq> dom (map_of (files st)) \<union> X"
  unfolding frame_def by blast

text \<open>The files of the backup directory after a run that succeeds.\<close>

lemma backup_success_dom:
  assumes "backup H cfg env fs0 = (st', None)" "\<forall>rnd. \<not> cannot_remove env (''delta'' @ rnd)"
  shows "dom (map_of (files st'))
           \<subseteq> (dom (map_of (files (opened cfg env fs0))) - {inprogress}) \<union> {sigFile}
         \<and> snapName (run_closure cfg env fs0) \<in> dom (map_of (files st'))"
  using assms(1)
proof (cases rule: backup_cases)
  case (finalized st5 st6)
  let ?K = "run_closure cfg env fs0"
  have rem: "\<forall>rnd. \<not> unremovable ?K (''delta'' @ rnd)" using assms(2) by simp
  have f5: "frame ?K {} (opened cfg env fs0) st5"
    using opened_wf finalized(1) by (rule walkRoots_frame)
  have f6: "frame ?K {} st5 st6"
    using tombstones_ok[OF frame_wf[OF f5] finalized(2)] by simp
  have d6: "dom (map_of (files st6)) \<subseteq> dom (map_of (files (opened cfg env fs0)))"
    using frame_dom[OF f5 rem] frame_dom[OF f6 rem] by blast
  have s6: "snapName ?K \<in> dom (map_of (files st6))"
    using frame_wf[OF f6] by (auto simp: wf_def)
  from finalized(3) show ?thesis
  proof (cases rule: finalize_cases)
    case (renamed f)
    have fl: "map_of (files st') = (map_of (files st6))(inprogress := None, sigFile \<mapsto> f)"
      using renamed(5) by (cases "sig_chown_fails env") (simp_all add: update_conv' delete_conv')
    show ?thesis using d6 s6 unfolding fl by auto
  qed simp_all
qed simp_all

lemma cleaned_no_snapshots:
  assumes "hdr_instance (run_header cfg env fs0) = 0" "\<not> DryRun cfg" "\<forall>n. \<not> cannot_remove env n"
    and "n \<in> dom (map_of (files (cleaned cfg env fs0)))"
  shows "\<not> suffix ''.gz.enc'' n"
proof
  assume suf: "suffix ''.gz.enc'' n"
  from cleaned_removal[of env cfg fs0]
  have c: "dom (map_of (files (cleaned cfg env fs0))) \<subseteq> dom (map_of (files (started cfg env fs0)))"
    "\<not> (DryRun cfg \<or> hdr_instance (run_header cfg env fs0) \<noteq> 0) \<longrightarrow>
       (\<forall>n \<in> set (file_names (started cfg env fs0)). suffix ''.gz.enc'' n \<and> \<not> cannot_remove env n
            \<longrightarrow> map_of (files (cleaned cfg env fs0)) n = None)"
    by (rule removalE; blast)+
  have "n \<in> set (file_names (started cfg env fs0))"
    using assms(4) c(1) by (auto simp: file_names_def dom_map_of_conv_image_fst)
  then have "map_of (files (cleaned cfg env fs0)) n = None"
    using c(2) assms(1,2,3) suf by blast
  then show False using assms(4) by auto
qed

lemma snap_Add_succeeds:
  assumes "wf K st" "\<not> f"
  shows "\<exists>st'. snap_Add (snapName K) f r st = (st', None)"
  using assms by (auto simp: snap_Add_def wf_def)

lemma sc_Add_succeeds:
  assumes "wf K st" "\<not> f" "p \<notin> fst ` set (sc_entries st)"
  shows "\<exists>st'. sc_Add f p sg st = (st', None)"
  using assms by (auto simp: sc_Add_def wf_def sc_entries_def)

lemma record_and_cache_succeeds:
  assumes "wf K st" "\<not> snap_add_fails e" "\<not> sc_add_fails e" "p \<notin> fst ` set (sc_entries st)"
  shows "\<exists>st'. record_and_cache K e MD p sg k pl st = (st', None)"
proof -
  let ?r = "\<lparr>rMD = MD, rKind = k, rPayload = pl\<rparr>"
  obtain st1 where 1: "snap_Add (snapName K) (snap_add_fails e) ?r st = (st1, None)"
    using snap_Add_succeeds[OF assms(1,2)] by blast
  have wf1: "wf K st1" using frame_wf[OF frame_snap_Add[OF assms(1) 1]] .
  have "sc_entries st1 = sc_entries st" using snap_Add_added[OF assms(1) 1] by (simp add: snap_added_def)
  then obtain st2 where 2: "sc_Add (sc_add_fails e) p sg st1 = (st2, None)"
    using sc_Add_succeeds[OF wf1 assms(3)] assms(4) by fastforce
  show ?thesis using 1 2 by (simp add: record_and_cache_def and_then_def)
qed

lemma previous_sig_Get:
  "sc_Get (existingSC K) f p = Inr cur \<Longrightarrow>
   cur = (case previous_sig K p of None \<Rightarrow> [] | Some s \<Rightarrow> s)"
  by (auto simp: sc_Get_def previous_sig_def split: if_splits option.splits)

text \<open>
  The events of the two ways of recording a delta: the large one creates its temporary
  file, closes it and calls \<open>os.Remove\<close> on it on every way out; the small one
  touches no file but the snapshot.
\<close>

lemma largeDelta_temp:
  assumes "wf K st" "temp_result e = Inr rnd" "''delta'' @ rnd \<notin> set (file_names st)"
    "largeDelta H K e MD cur content st = (st1, r)"
  shows "\<exists>evs. events st1 = events st @ EvCreate (''delta'' @ rnd) # evs
           \<and> EvClose (''delta'' @ rnd) \<in> set evs
           \<and> (\<not> unremovable K (''delta'' @ rnd) \<longrightarrow>
                 EvRemove (''delta'' @ rnd) \<in> set evs
                 \<and> map_of (files st1) (''delta'' @ rnd) = None)
           \<and> (r = None \<longrightarrow>
                 (\<exists>evs'. evs = EvAppend (''delta'' @ rnd) # EvAppend (snapName K)
                                 # EvClose (''delta'' @ rnd) # evs'))"
proof -
  define tmp where "tmp = ''delta'' @ rnd"
  note fr = frame_create_tmp[OF assms(1) assms(3) refl]
  have key: "\<exists>evs. events (close_and_remove K tmp s) = events st @ EvCreate tmp # evs
           \<and> EvClose tmp \<in> set evs
           \<and> (\<not> unremovable K tmp \<longrightarrow> EvRemove tmp \<in> set evs
                 \<and> map_of (files (close_and_remove K tmp s)) tmp = None)
           \<and> (r = None \<longrightarrow>
                 (\<exists>evs'. evs = EvAppend tmp # EvAppend (snapName K) # EvClose tmp # evs'))"
    if "events s = events st @ EvCreate tmp # pre" "map_of (files s) tmp \<noteq> None"
      "r = None \<longrightarrow> pre = [EvAppend tmp, EvAppend (snapName K)]" for s pre
  proof -
    let ?tl = "if unremovable K tmp then [EvClose tmp] else [EvClose tmp, EvRemove tmp]"
    have "events (close_and_remove K tmp s) = events st @ EvCreate tmp # (pre @ ?tl)"
      using that(1,2) by (auto simp: close_and_remove_events)
    moreover have "EvClose tmp \<in> set (pre @ ?tl)" by simp
    moreover have "\<not> unremovable K tmp \<longrightarrow> EvRemove tmp \<in> set (pre @ ?tl)
                 \<and> map_of (files (close_and_remove K tmp s)) tmp = None"
      by (simp add: close_and_remove_gone)
    moreover have "r = None \<longrightarrow>
        (\<exists>evs'. pre @ ?tl = EvAppend tmp # EvAppend (snapName K) # EvClose tmp # evs')"
      using that(3) by simp
    ultimately show ?thesis by blast
  qed
  from assms(4,2,3) show ?thesis
  proof (cases rule: largeDelta_cases)
    case (delta_failed er)
    show ?thesis unfolding delta_failed(3) tmp_def[symmetric]
      by (rule key[of _ "[]"]) (simp_all add: tmp_def delta_failed(2))
  next
    case (tmp_failed delta er)
    show ?thesis unfolding tmp_failed(4) tmp_def[symmetric]
      by (rule key[of _ "[EvAppend tmp]"]) (simp_all add: tmp_def tmp_failed(2))
  next
    case (added delta st3)
    from added(4) have "\<exists>pre. events st3 = events st @ EvCreate tmp # pre
                           \<and> map_of (files st3) tmp \<noteq> None
                           \<and> (r = None \<longrightarrow> pre = [EvAppend tmp, EvAppend (snapName K)])"
    proof (cases rule: snap_Add_cases)
      case (ok h rs)
      have "events st3 = events st @ EvCreate tmp # [EvAppend tmp, EvAppend (snapName K)]"
        using ok(3) by (simp add: tmp_def)
      moreover have "map_of (files st3) tmp \<noteq> None" using ok(3) fr(4) by (simp add: tmp_def)
      ultimately show ?thesis by blast
    next
      case (fail er)
      have "events st3 = events st @ EvCreate tmp # [EvAppend tmp]"
        using fail(2) by (simp add: tmp_def)
      moreover have "map_of (files st3) tmp \<noteq> None" using fail(2) by (simp add: tmp_def)
      ultimately show ?thesis using fail(1) by blast
    qed
    then obtain pre where "events st3 = events st @ EvCreate tmp # pre"
      "map_of (files st3) tmp \<noteq> None" "r = None \<longrightarrow> pre = [EvAppend tmp, EvAppend (snapName K)]"
      by blast
    then show ?thesis unfolding added(5) tmp_def[symmetric] by (rule key)
  qed
qed

lemma add_tail_events:
  assumes "and_then (sc_Add f p sg st1) (\<lambda>st2. (delete_path p st2, None)) = (st', res)"
  shows "(\<exists>evs. events st' = events st1 @ evs \<and> set evs \<subseteq> {EvAppend inprogress})
       \<and> (\<forall>n. n \<noteq> inprogress \<longrightarrow> map_of (files st') n = map_of (files st1) n)
       \<and> dom (map_of (files st')) = dom (map_of (files st1))"
proof -
  obtain st2 r2 where a: "sc_Add f p sg st1 = (st2, r2)" by (cases "sc_Add f p sg st1")
  have st': "st' = (if r2 = None then delete_path p st2 else st2)"
    using assms a by (cases r2) (auto simp: and_then_def)
  from a show ?thesis
  proof (cases rule: sc_Add_cases)
    case (ok h es)
    have "events st' = events st1 @ [EvAppend inprogress]" using ok st' by simp
    then have "\<exists>evs. events st' = events st1 @ evs \<and> set evs \<subseteq> {EvAppend inprogress}" by auto
    then show ?thesis using ok st' by auto
  next
    case (fail er)
    then show ?thesis using st' by simp
  qed
qed

lemma smallDelta_events:
  assumes "smallDelta H K e MD cur content st = (st1, r)"
  shows "(\<exists>evs. events st1 = events st @ evs \<and> set evs \<subseteq> {EvAppend (snapName K)})
       \<and> dom (map_of (files st1)) = dom (map_of (files st))"
proof (cases "GenDelta H cur content (info_Size e)")
  case (Inl er)
  then show ?thesis using assms by (auto simp: smallDelta_def)
next
  case (Inr delta)
  then have "snap_Add (snapName K) (snap_add_fails e)
               \<lparr>rMD = MD, rKind = KindDelta, rPayload = delta\<rparr> st = (st1, r)"
    using assms by (simp add: smallDelta_def)
  then show ?thesis
  proof (cases rule: snap_Add_cases)
    case (ok h rs)
    have "events st1 = events st @ [EvAppend (snapName K)]" using ok by simp
    then have "\<exists>evs. events st1 = events st @ evs \<and> set evs \<subseteq> {EvAppend (snapName K)}" by auto
    then show ?thesis using ok by auto
  next
    case (fail er)
    then show ?thesis by simp
  qed
qed

section \<open>The claims\<close>



text \<open>
  Claim C2. In every run the events that change \<open>sig.cache\<close> are none when the run
  fails, and when it succeeds the single rename of \<open>sig.cache.inprogress\<close> over it,
  made right after the snapshot writer and the new cache were closed, followed only by
  the change of owner. Before the rename the file holds what it held before the run;
  after it, what \<open>sig.cache.inprogress\<close> held when it was closed.
\<close>

theorem sig_cache_single_rename:
  assumes "backup H cfg env fs0 = (st', res)"
  shows "\<exists>pre post. events st' = pre @ post \<and> (\<forall>ev \<in> set pre. \<not> mutates sigFile ev)
           \<and> (case res of
                 Some er \<Rightarrow> post = [] \<and> map_of (files st') sigFile = map_of fs0 sigFile
               | None \<Rightarrow>
                   post = [EvClose (snapName (run_closure cfg env fs0)), EvClose inprogress,
                           EvRename inprogress sigFile]
                          @ (if sig_chown_fails env then [] else [EvChown sigFile])
                   \<and> (\<exists>st6::state. events st6 = pre
                         \<and> map_of (files st6) sigFile = map_of fs0 sigFile
                         \<and> map_of (files st6) inprogress \<noteq> None
                         \<and> map_of (files st') sigFile = map_of (files st6) inprogress))"
proof (cases res)
  case (Some er)
  from backup_failed_quiet[OF assms[unfolded Some]]
  obtain evs where "map_of (files st') sigFile = map_of (files (initial_state fs0)) sigFile"
    "events st' = events (initial_state fs0) @ evs" "\<forall>ev \<in> set evs. \<not> mutates sigFile ev"
    by (rule quietE)
  then have "events st' = evs @ [] \<and> (\<forall>ev \<in> set evs. \<not> mutates sigFile ev)
    \<and> [] = ([]::event list) \<and> map_of (files st') sigFile = map_of fs0 sigFile"
    by (simp add: initial_state_def)
  then show ?thesis unfolding Some by (intro exI[of _ evs] exI[of _ "[]"]) simp
next
  case None
  from assms[unfolded None] obtain st6 f where s:
    "quiet (run_closure cfg env fs0) {inprogress, snapName (run_closure cfg env fs0)}
       (initial_state fs0) st6"
    "map_of (files st6) inprogress = Some f"
    "st' = say InfoCompleted
               ((if sig_chown_fails env then say ErrChownSignature else emit (EvChown sigFile))
                  (emit (EvRename inprogress sigFile)
                    ((emit (EvClose inprogress)
                        (emit (EvClose (snapName (run_closure cfg env fs0))) st6))
                      \<lparr>files := AList.update sigFile f (AList.delete inprogress (files st6))\<rparr>)))"
    by (rule backup_finalized)
  from s(1) obtain evs where q: "map_of (files st6) sigFile = map_of (files (initial_state fs0)) sigFile"
    "events st6 = events (initial_state fs0) @ evs" "\<forall>ev \<in> set evs. \<not> mutates sigFile ev"
    by (rule quietE)
  let ?post = "[EvClose (snapName (run_closure cfg env fs0)), EvClose inprogress,
                           EvRename inprogress sigFile]
                          @ (if sig_chown_fails env then [] else [EvChown sigFile])"
  have ev: "events st' = events st6 @ ?post"
    using s(3) by (cases "sig_chown_fails env") simp_all
  have fl: "map_of (files st') sigFile = map_of (files st6) inprogress"
    using s(2,3) by (cases "sig_chown_fails env") (simp_all add: update_conv')
  have w: "\<exists>s::state. events s = events st6
                         \<and> map_of (files s) sigFile = map_of fs0 sigFile
                         \<and> map_of (files s) inprogress \<noteq> None
                         \<and> map_of (files st') sigFile = map_of (files s) inprogress"
    by (rule exI[of _ st6]) (use fl q s(2) in \<open>simp add: initial_state_def\<close>)
  have "events st' = events st6 @ ?post \<and> (\<forall>ev \<in> set (events st6). \<not> mutates sigFile ev)"
    using ev q by (simp add: initial_state_def)
  then show ?thesis unfolding None using w
    by (intro exI[of _ "events st6"] exI[of _ ?post]) simp
qed

theorem sig_cache_single_rename_witness:
  "(\<exists>pre. events (fst (backup demo_helpers second_run_cfg demo_env second_run_fs))
            = pre @ [EvClose ''snap.gz.enc'', EvClose inprogress, EvRename inprogress sigFile,
                     EvChown sigFile]
          \<and> filter (mutates sigFile) pre = [])
   \<and> snd (backup demo_helpers cancelled_cfg demo_env second_run_fs)
       = Some (ErrWalking ''/src'' ErrCancelled)
   \<and> filter (mutates sigFile)
        (events (fst (backup demo_helpers cancelled_cfg demo_env second_run_fs))) = []
   \<and> map_of (files (fst (backup demo_helpers cancelled_cfg demo_env second_run_fs))) sigFile
       = map_of second_run_fs sigFile"
proof -
  have a: "snd (backup demo_helpers second_run_cfg demo_env second_run_fs) = None"
    by (simp add: model_defs demo_defs)
  have b: "snd (backup demo_helpers cancelled_cfg demo_env second_run_fs)
             = Some (ErrWalking ''/src'' ErrCancelled)"
    by (simp add: model_defs demo_defs)
  have n: "snapName (run_closure second_run_cfg demo_env second_run_fs) = ''snap.gz.enc''"
    by (simp add: model_defs demo_defs)
  have c: "\<not> sig_chown_fails demo_env" by (simp add: demo_defs)
  show ?thesis
    using sig_cache_single_rename[OF surjective_pairing,
            of demo_helpers second_run_cfg demo_env second_run_fs]
          sig_cache_single_rename[OF surjective_pairing,
            of demo_helpers cancelled_cfg demo_env second_run_fs]
    unfolding a b n by (auto simp: c filter_empty_conv)
qed




text \<open>
  Claim C4, as amended. In a run that succeeds, a path that matches a configured exclude
  has no record of kind 0, 1 or 2 in the snapshot and is not in the committed cache;
  the only record it can have is a tombstone, and it has one exactly when the previous
  cache the run reconciles against holds the path.
\<close>

theorem excluded_path_only_tombstoned:
  assumes "backup H cfg env fs0 = (st', None)"
    and "list_ex (\<lambda>exclude. exclude p) (Excludes cfg)"
  shows "(\<forall>r \<in> set (snap_records (snapName (run_closure cfg env fs0)) st').
            Path (rMD r) = p \<longrightarrow> r = tombstone p)
       \<and> (\<forall>h es. map_of (files st') sigFile = Some (CacheFile h es) \<longrightarrow> p \<notin> fst ` set es)
       \<and> (tombstone p \<in> set (snap_records (snapName (run_closure cfg env fs0)) st')
            \<longleftrightarrow> p \<in> set (sc_Paths (existingSC (run_closure cfg env fs0))))"
proof -
  have "\<not> ok_path (run_closure cfg env fs0) p" using assms(2) by (simp add: ok_path_def)
  with assms(1) show ?thesis by (rule skipped_path)
qed

theorem excluded_path_only_tombstoned_witness:
  "list_ex (\<lambda>exclude. exclude ''/src/tmp/x'') (Excludes excluded_cfg)
   \<and> snd (backup demo_helpers excluded_cfg demo_env excluded_fs) = None
   \<and> ''/src/tmp/x'' \<in> set (sc_Paths (existingSC (run_closure excluded_cfg demo_env excluded_fs)))
   \<and> {r \<in> set (snap_records ''snap.gz.enc''
                  (fst (backup demo_helpers excluded_cfg demo_env excluded_fs))).
          Path (rMD r) = ''/src/tmp/x''} = {tombstone ''/src/tmp/x''}
   \<and> (\<exists>h es. map_of (files (fst (backup demo_helpers excluded_cfg demo_env excluded_fs))) sigFile
                  = Some (CacheFile h es) \<and> ''/src/tmp/x'' \<notin> fst ` set es)"
proof -
  have r: "snd (backup demo_helpers excluded_cfg demo_env excluded_fs) = None"
    by (simp add: model_defs demo_defs)
  then have b: "backup demo_helpers excluded_cfg demo_env excluded_fs
               = (fst (backup demo_helpers excluded_cfg demo_env excluded_fs), None)"
    by (simp add: prod_eq_iff)
  have x: "list_ex (\<lambda>exclude. exclude ''/src/tmp/x'') (Excludes excluded_cfg)"
    by (simp add: demo_defs)
  have n: "snapName (run_closure excluded_cfg demo_env excluded_fs) = ''snap.gz.enc''"
    by (simp add: model_defs demo_defs)
  have e: "''/src/tmp/x'' \<in> set (sc_Paths (existingSC (run_closure excluded_cfg demo_env excluded_fs)))"
    by (simp add: model_defs demo_defs)
  have t: "Path (rMD (tombstone ''/src/tmp/x'')) = ''/src/tmp/x''" by (simp add: tombstone_def)
  have f: "\<exists>h es. map_of (files (fst (backup demo_helpers excluded_cfg demo_env excluded_fs))) sigFile
                  = Some (CacheFile h es)"
    by (simp add: model_defs demo_defs)
  show ?thesis
    using excluded_path_only_tombstoned[OF b x] r x e t f unfolding n by blast
qed

text \<open>
  Claim C4 as stated fails: the path \<open>/src/tmp/x\<close> matches the exclude, the previous
  cache holds it, and the snapshot of the run has a tombstone for it.
\<close>

theorem excluded_path_counterexample:
  "excludes_tmp ''/src/tmp/x'' \<and> Excludes excluded_cfg = [excludes_tmp]
   \<and> snd (backup demo_helpers excluded_cfg demo_env excluded_fs) = None
   \<and> tombstone ''/src/tmp/x''
       \<in> set (snap_records ''snap.gz.enc'' (fst (backup demo_helpers excluded_cfg demo_env excluded_fs)))"
  by (simp add: model_defs demo_defs)








text \<open>
  Claim C8. The memory limit is 10 MiB. For a regular file whose cached signature is
  present and differs from the new one: if the size the walk reports exceeds ten times
  the limit and \<open>os.CreateTemp\<close> gives a new file of the backup directory, the
  callback creates that file, closes it on every way out, on success and on every error,
  and, where \<open>os.Remove\<close> succeeds, has removed it when it returns; on success the
  delta was written to the file and then appended to the snapshot before the file was
  closed. If the size does not exceed ten times the limit, the callback creates no file:
  its only events are appends to the snapshot and to the new cache. In both cases a
  successful callback has appended one record of kind 2 whose payload is the delta of
  \<open>rsync.GenDelta\<close>.
\<close>

theorem large_delta_uses_temp_file:
  assumes re: "regular_entry H K e p a cur content sg" and ne: "cur \<noteq> sg" "cur \<noteq> []"
    and wf: "wf K st" and run: "walkFn H K e st = (st', res)"
  shows "memoryLimit = 10 * 2 ^ 20
       \<and> (info_Size e > 10 * memoryLimit \<longrightarrow>
            (\<forall>rnd. temp_result e = Inr rnd \<and> ''delta'' @ rnd \<notin> set (file_names st) \<longrightarrow>
               (\<exists>evs. events st' = events st @ EvCreate (''delta'' @ rnd) # evs
                    \<and> EvClose (''delta'' @ rnd) \<in> set evs
                    \<and> (\<not> unremovable K (''delta'' @ rnd) \<longrightarrow>
                          EvRemove (''delta'' @ rnd) \<in> set evs
                          \<and> map_of (files st') (''delta'' @ rnd) = None)
                    \<and> (res = None \<longrightarrow>
                          (\<exists>evs'. evs = EvAppend (''delta'' @ rnd) # EvAppend (snapName K)
                                          # EvClose (''delta'' @ rnd) # evs')))))
       \<and> (info_Size e \<le> 10 * memoryLimit \<longrightarrow>
            (\<exists>evs. events st' = events st @ evs
                 \<and> set evs \<subseteq> {EvAppend (snapName K), EvAppend inprogress})
            \<and> dom (map_of (files st')) = dom (map_of (files st)))
       \<and> (res = None \<longrightarrow>
            (\<exists>delta. GenDelta H cur content (info_Size e) = Inr delta
               \<and> snap_records (snapName K) st'
                   = snap_records (snapName K) st
                     @ [\<lparr>rMD = \<lparr>Path = p, Attribs = a\<rparr>, rKind = KindDelta, rPayload = delta\<rparr>]))"
proof -
  let ?MD = "\<lparr>Path = p, Attribs = a\<rparr>"
  let ?st0 = "say (DebugChanged p) st"
  let ?tail = "\<lambda>st1. and_then (sc_Add (sc_add_fails e) p sg st1) (\<lambda>st2. (delete_path p st2, None))"
  have rs: "reaches_switch H K e p a cur" "\<not> is_special H a" "\<not> isSymlink H (Mode a)"
    and op: "open_result e = Inr content"
    and gs: "GenSignature H ?MD (Some content) (info_Size e) = Inr sg"
    using re by (simp_all add: regular_entry_def)
  have w: "walkFn H K e st = regularFile H K e ?MD p cur st" using rs by (rule walkFn_regular)
  have rf: "regularFile H K e ?MD p cur st = (st', res)" using w run by simp
  have wf0: "wf K ?st0" using wf by simp
  have m: "memoryLimit = 10 * 2 ^ 20" by (simp add: memoryLimit_def)
  have big: "\<exists>evs. events st' = events st @ EvCreate (''delta'' @ rnd) # evs
                    \<and> EvClose (''delta'' @ rnd) \<in> set evs
                    \<and> (\<not> unremovable K (''delta'' @ rnd) \<longrightarrow>
                          EvRemove (''delta'' @ rnd) \<in> set evs
                          \<and> map_of (files st') (''delta'' @ rnd) = None)
                    \<and> (res = None \<longrightarrow>
                          (\<exists>evs'. evs = EvAppend (''delta'' @ rnd) # EvAppend (snapName K)
                                          # EvClose (''delta'' @ rnd) # evs'))"
    if "info_Size e > 10 * memoryLimit" "temp_result e = Inr rnd"
       "''delta'' @ rnd \<notin> set (file_names st)" for rnd
  proof -
    let ?tmp = "''delta'' @ rnd"
    have a: "and_then (largeDelta H K e ?MD cur content ?st0) ?tail = (st', res)"
      using rf op gs ne that(1) by (simp add: regularFile_def mult.commute)
    have fn: "?tmp \<notin> set (file_names ?st0)" using that(3) by (simp add: file_names_def)
    have ni: "?tmp \<noteq> inprogress" using frame_create_tmp(5)[OF wf that(3) refl] .
    from a show ?thesis
    proof (cases rule: and_then_cases)
      case (go st1)
      from largeDelta_temp[OF wf0 that(2) fn go(1)] obtain evs where l:
        "events st1 = events st @ EvCreate ?tmp # evs" "EvClose ?tmp \<in> set evs"
        "\<not> unremovable K ?tmp \<longrightarrow> EvRemove ?tmp \<in> set evs \<and> map_of (files st1) ?tmp = None"
        "\<exists>evs'. evs = EvAppend ?tmp # EvAppend (snapName K) # EvClose ?tmp # evs'"
        by auto
      from add_tail_events[OF go(2)] obtain evs2 where t:
        "events st' = events st1 @ evs2"
        "map_of (files st') ?tmp = map_of (files st1) ?tmp"
        using ni by blast
      from l(4) obtain evs' where e': "evs = EvAppend ?tmp # EvAppend (snapName K) # EvClose ?tmp # evs'"
        by blast
      have "events st' = events st @ EvCreate ?tmp # (evs @ evs2)" using l(1) t(1) by simp
      moreover have "EvClose ?tmp \<in> set (evs @ evs2)" using l(2) by simp
      moreover have "\<not> unremovable K ?tmp \<longrightarrow>
          EvRemove ?tmp \<in> set (evs @ evs2) \<and> map_of (files st') ?tmp = None"
        using l(3) t(2) by simp
      moreover have "\<exists>x. evs @ evs2 = EvAppend ?tmp # EvAppend (snapName K) # EvClose ?tmp # x"
        using e' by simp
      ultimately show ?thesis by blast
    next
      case (stop er)
      from largeDelta_temp[OF wf0 that(2) fn stop(1)] show ?thesis using stop(2) by simp
    qed
  qed
  have small: "(\<exists>evs. events st' = events st @ evs
                 \<and> set evs \<subseteq> {EvAppend (snapName K), EvAppend inprogress})
            \<and> dom (map_of (files st')) = dom (map_of (files st))"
    if "info_Size e \<le> 10 * memoryLimit"
  proof -
    have a: "and_then (smallDelta H K e ?MD cur content ?st0) ?tail = (st', res)"
      using rf op gs ne that by (simp add: regularFile_def mult.commute)
    from a show ?thesis
    proof (cases rule: and_then_cases)
      case (go st1)
      from smallDelta_events[OF go(1)] obtain evs where l:
        "events st1 = events st @ evs" "set evs \<subseteq> {EvAppend (snapName K)}"
        "dom (map_of (files st1)) = dom (map_of (files st))" by auto
      from add_tail_events[OF go(2)] obtain evs2 where t:
        "events st' = events st1 @ evs2" "set evs2 \<subseteq> {EvAppend inprogress}"
        "dom (map_of (files st')) = dom (map_of (files st1))" by blast
      have "events st' = events st @ (evs @ evs2)" using l(1) t(1) by simp
      moreover have "set (evs @ evs2) \<subseteq> {EvAppend (snapName K), EvAppend inprogress}"
        using l(2) t(2) by auto
      ultimately show ?thesis using l(3) t(3) by blast
    next
      case (stop er)
      from smallDelta_events[OF stop(1)] show ?thesis by auto
    qed
  qed
  have fin: "\<exists>delta. GenDelta H cur content (info_Size e) = Inr delta
               \<and> snap_records (snapName K) st'
                   = snap_records (snapName K) st
                     @ [\<lparr>rMD = ?MD, rKind = KindDelta, rPayload = delta\<rparr>]"
    if "res = None"
  proof -
    from regularFile_effect[OF wf rf[unfolded that]] op gs ne
    obtain delta where "GenDelta H cur content (info_Size e) = Inr delta"
      "rec_step K p sg \<lparr>rMD = ?MD, rKind = KindDelta, rPayload = delta\<rparr> st st'"
      by auto
    then show ?thesis by (auto simp: rec_step_def)
  qed
  show ?thesis using m big small fin by blast
qed

theorem large_delta_uses_temp_file_witness:
  "regular_entry demo_helpers (run_closure second_run_cfg demo_env second_run_fs) large_file
      ''/src/a'' zeroAttribs ''Sho'' ''hi'' ''Shi''
   \<and> 10 * memoryLimit < info_Size large_file
   \<and> temp_result large_file = Inr ''1''
   \<and> ''delta1'' \<notin> set (file_names (opened second_run_cfg demo_env second_run_fs))
   \<and> snd (walkFn demo_helpers (run_closure second_run_cfg demo_env second_run_fs) large_file
             (opened second_run_cfg demo_env second_run_fs)) = None
   \<and> (\<exists>evs. events (fst (walkFn demo_helpers (run_closure second_run_cfg demo_env second_run_fs)
                             large_file (opened second_run_cfg demo_env second_run_fs)))
              = events (opened second_run_cfg demo_env second_run_fs)
                @ EvCreate ''delta1'' # EvAppend ''delta1'' # EvAppend ''snap.gz.enc''
                  # EvClose ''delta1'' # evs
           \<and> EvRemove ''delta1'' \<in> set evs)
   \<and> map_of (files (fst (walkFn demo_helpers (run_closure second_run_cfg demo_env second_run_fs)
                           large_file (opened second_run_cfg demo_env second_run_fs))))
        ''delta1'' = None
   \<and> snap_records ''snap.gz.enc''
        (fst (walkFn demo_helpers (run_closure second_run_cfg demo_env second_run_fs) large_file
                (opened second_run_cfg demo_env second_run_fs)))
       = [\<lparr>rMD = \<lparr>Path = ''/src/a'', Attribs = zeroAttribs\<rparr>, rKind = KindDelta,
           rPayload = ''Dhi''\<rparr>]
   \<and> regular_entry demo_helpers (run_closure second_run_cfg demo_env second_run_fs) limit_file
      ''/src/a'' zeroAttribs ''Sho'' ''hi'' ''Shi''
   \<and> info_Size limit_file = 10 * memoryLimit
   \<and> snd (walkFn demo_helpers (run_closure second_run_cfg demo_env second_run_fs) limit_file
             (opened second_run_cfg demo_env second_run_fs)) = None
   \<and> (\<exists>evs. events (fst (walkFn demo_helpers (run_closure second_run_cfg demo_env second_run_fs)
                             limit_file (opened second_run_cfg demo_env second_run_fs)))
              = events (opened second_run_cfg demo_env second_run_fs) @ evs
           \<and> set evs \<subseteq> {EvAppend ''snap.gz.enc'', EvAppend inprogress})
   \<and> dom (map_of (files (fst (walkFn demo_helpers
                                  (run_closure second_run_cfg demo_env second_run_fs) limit_file
                                  (opened second_run_cfg demo_env second_run_fs)))))
       = dom (map_of (files (opened second_run_cfg demo_env second_run_fs)))
   \<and> snap_records ''snap.gz.enc''
        (fst (walkFn demo_helpers (run_closure second_run_cfg demo_env second_run_fs) limit_file
                (opened second_run_cfg demo_env second_run_fs)))
       = [\<lparr>rMD = \<lparr>Path = ''/src/a'', Attribs = zeroAttribs\<rparr>, rKind = KindDelta,
           rPayload = ''Dhi''\<rparr>]"
proof -
  let ?K = "run_closure second_run_cfg demo_env second_run_fs"
  let ?st = "opened second_run_cfg demo_env second_run_fs"
  let ?big = "walkFn demo_helpers ?K large_file ?st"
  let ?lim = "walkFn demo_helpers ?K limit_file ?st"
  let ?r = "\<lparr>rMD = \<lparr>Path = ''/src/a'', Attribs = zeroAttribs\<rparr>, rKind = KindDelta,
            rPayload = ''Dhi''\<rparr>"
  have k: "snapName ?K = ''snap.gz.enc''" "\<not> unremovable ?K ''delta1''"
    by (simp_all add: model_defs demo_defs)
  have 1: "regular_entry demo_helpers ?K large_file ''/src/a'' zeroAttribs ''Sho'' ''hi'' ''Shi''"
    by (simp add: regular_entry_def reaches_switch_def is_special_def large_file_def
          model_defs demo_defs)
  have 2: "regular_entry demo_helpers ?K limit_file ''/src/a'' zeroAttribs ''Sho'' ''hi'' ''Shi''"
    by (simp add: regular_entry_def reaches_switch_def is_special_def limit_file_def
          model_defs demo_defs)
  have 3: "''Sho'' \<noteq> ''Shi''" "''Sho'' \<noteq> []" by simp_all
  have 4: "10 * memoryLimit < info_Size large_file" "info_Size limit_file = 10 * memoryLimit"
    "temp_result large_file = Inr ''1''"
    by (simp_all add: large_file_def limit_file_def memoryLimit_def demo_defs)
  have 5: "''delta1'' \<notin> set (file_names ?st)" by (simp add: model_defs demo_defs)
  have 6: "snd ?big = None"
    by (simp add: large_file_def model_defs demo_defs)
  have 7: "snd ?lim = None"
    by (simp add: limit_file_def model_defs demo_defs)
  have 8: "snap_records ''snap.gz.enc'' ?st = []" by (simp add: model_defs demo_defs)
  have 9: "GenDelta demo_helpers ''Sho'' ''hi'' n = Inr ''Dhi''" for n by (simp add: demo_defs)
  note t = large_delta_uses_temp_file[OF 1 3 opened_wf surjective_pairing]
  note u = large_delta_uses_temp_file[OF 2 3 opened_wf surjective_pairing]
  have p: "temp_result large_file = Inr ''1'' \<and> ''delta'' @ ''1'' \<notin> set (file_names ?st)"
    using 4(3) 5 by simp
  from t[THEN conjunct2, THEN conjunct1, rule_format, OF 4(1) p]
  have a: "\<exists>evs. events (fst ?big) = events ?st
                @ EvCreate ''delta1'' # EvAppend ''delta1'' # EvAppend ''snap.gz.enc''
                  # EvClose ''delta1'' # evs
           \<and> EvRemove ''delta1'' \<in> set evs"
    and b: "map_of (files (fst ?big)) ''delta1'' = None"
    using k 6 by auto
  from t[THEN conjunct2, THEN conjunct2, THEN conjunct2, rule_format, OF 6]
  have c: "snap_records ''snap.gz.enc'' (fst ?big) = [?r]"
    unfolding k 8 9 by simp
  have le: "info_Size limit_file \<le> 10 * memoryLimit" using 4(2) by simp
  from u[THEN conjunct2, THEN conjunct2, THEN conjunct1, rule_format, OF le]
  have d: "\<exists>evs. events (fst ?lim) = events ?st @ evs
           \<and> set evs \<subseteq> {EvAppend ''snap.gz.enc'', EvAppend inprogress}"
    and e: "dom (map_of (files (fst ?lim))) = dom (map_of (files ?st))"
    unfolding k by simp_all
  from u[THEN conjunct2, THEN conjunct2, THEN conjunct2, rule_format, OF 7]
  have f: "snap_records ''snap.gz.enc'' (fst ?lim) = [?r]"
    unfolding k 8 9 by simp
  show ?thesis by (intro conjI) (fact 1 4 5 6 a b c 2 7 d e f)+
qed





end
